theory Spec2Isabelle
  imports Complex_Main "HOL-Library.Multiset"
begin

section \<open>COPAC: correlation partition clustering (src/copac.py)\<close>

text \<open>
  The function \<open>copac\<close> of src/copac.py is embedded twice.
  \<^item> \<open>copac_call\<close> is the whole call \<open>copac(X, k, mu, eps, alpha)\<close>, lines 97-179, with the
    checks and the failures of lines 97-120 and 167 and with collaborators that may raise.
  \<^item> \<open>copac\<close> is the same computation from the answers of the collaborators, for the
    properties of lines 121-179 that do not depend on how the answers were obtained:
    \<open>nbhd_eigh P\<close> is the pair \<open>(E, V)\<close> that \<open>LA.eigh(np.cov(X[knn], rowvar=False, ddof=0))\<close>
    returned for point \<open>P\<close> (the eigenvalues in ascending order, the eigenvectors in the
    columns of \<open>V\<close>), \<open>argsort\<close> is \<open>np.argsort\<close>, whose order among equal keys is not
    fixed by numpy, and \<open>dbscan\<close> is the density clustering of line 167 with \<open>eps\<close> and
    \<open>min_samples\<close> fixed, from the distance matrix to the label vector.
  The lemma \<open>copac_call_eq_copac\<close> relates the two.

  Floating point numbers are modelled by exact reals, so the rounding of the arithmetic is
  not in the model.  The two operations of the source whose result need not be a number
  are written out: the division of line 125 and the square root of line 163 return an
  \<open>npfloat\<close>.  The matrices \<open>M_hat\<close> are an argument of the distance computation
  (\<open>partition_dist\<close>), so that it can also be evaluated at the matrices as they are stored
  in double precision.  Integer arrays are \<open>nat\<close> and \<open>int\<close> lists.
\<close>

type_synonym vec = "real list"
type_synonym mat = "real list list"

datatype error = ValueError | IndexError | AssertionError

subsection \<open>Array primitives of numpy and scipy used by the source\<close>

text \<open>\<open>xs[a:b]\<close> for non-negative bounds: out-of-range bounds are clamped.\<close>

definition py_slice :: "'a list \<Rightarrow> nat \<Rightarrow> nat \<Rightarrow> 'a list" where
  "py_slice xs a b = take (b - a) (drop a xs)"

text \<open>\<open>xs[a:b] = v\<close> on an array, for \<open>length v = b - a\<close> and \<open>b \<le> length xs\<close>
  (every slice assignment of the source has this shape).\<close>

definition slice_assign :: "'a list \<Rightarrow> nat \<Rightarrow> nat \<Rightarrow> 'a list \<Rightarrow> 'a list" where
  "slice_assign xs a b v = take a xs @ v @ drop b xs"

fun cumsum_from :: "'a::monoid_add \<Rightarrow> 'a list \<Rightarrow> 'a list" where
  "cumsum_from acc [] = []"
| "cumsum_from acc (x # xs) = (acc + x) # cumsum_from (acc + x) xs"

definition cumsum :: "'a::monoid_add list \<Rightarrow> 'a list" where
  "cumsum xs = cumsum_from 0 xs"

text \<open>The quotient of two floats where the divisor may be zero: numpy warns and
  yields not-a-number for \<open>0/0\<close> and a signed infinity for \<open>x/0\<close>.\<close>

datatype npfloat = Fin real | PInf | NInf | NaN

definition np_divide :: "real \<Rightarrow> real \<Rightarrow> npfloat" where
  "np_divide x y =
     (if y \<noteq> 0 then Fin (x / y) else if x = 0 then NaN else if 0 < x then PInf else NInf)"

text \<open>The order numpy sorts and searches floats by, against a finite key: not-a-number
  is larger than every number.\<close>

definition np_less :: "npfloat \<Rightarrow> real \<Rightarrow> bool" where
  "np_less x v = (case x of Fin a \<Rightarrow> a < v | NInf \<Rightarrow> True | PInf \<Rightarrow> False | NaN \<Rightarrow> False)"

text \<open>\<open>np.sqrt\<close>: the root of a negative number is not-a-number (numpy warns).\<close>

definition np_sqrt :: "real \<Rightarrow> npfloat" where
  "np_sqrt x = (if x < 0 then NaN else Fin (sqrt x))"

type_synonym npmat = "npfloat list list"

text \<open>\<open>np.searchsorted(a, v, side='left')\<close>: the binary search of numpy.\<close>

function bsearch_left :: "npfloat list \<Rightarrow> real \<Rightarrow> nat \<Rightarrow> nat \<Rightarrow> nat" where
  "bsearch_left a v lo hi =
     (if lo < hi
      then (let mid = lo + (hi - lo) div 2
            in if np_less (a ! mid) v then bsearch_left a v (mid + 1) hi
               else bsearch_left a v lo mid)
      else lo)"
  by pat_completeness auto
termination
  by (relation "measure (\<lambda>(a, v, lo, hi). hi - lo)") auto

declare bsearch_left.simps [simp del]

definition searchsorted_left :: "npfloat list \<Rightarrow> real \<Rightarrow> nat" where
  "searchsorted_left a v = bsearch_left a v 0 (length a)"

text \<open>\<open>np.histogram(vals, bins=np.arange(1, d + 2))\<close> on integers: bin \<open>b\<close> counts the
  values equal to \<open>b\<close>, the last bin \<open>[d, d + 1]\<close> is closed on both sides.\<close>

definition histogram :: "nat list \<Rightarrow> nat \<Rightarrow> nat list" where
  "histogram vals d =
     map (\<lambda>b. length (filter (\<lambda>v. if b = d then d \<le> v \<and> v \<le> d + 1 else v = b) vals))
       [1..<d + 1]"

text \<open>\<open>np.split(xs, idx)\<close>: the slices between consecutive division points
  \<open>0, idx..., len(xs)\<close>.\<close>

fun sections :: "'a list \<Rightarrow> nat list \<Rightarrow> 'a list list" where
  "sections xs [] = []"
| "sections xs [a] = []"
| "sections xs (a # b # r) = py_slice xs a b # sections xs (b # r)"

definition np_split :: "'a list \<Rightarrow> nat list \<Rightarrow> 'a list list" where
  "np_split xs idx = sections xs (0 # idx @ [length xs])"

subsection \<open>Matrices as lists of rows\<close>

definition ncols :: "mat \<Rightarrow> nat" where
  "ncols A = (if A = [] then 0 else length (hd A))"

definition vec_mat :: "vec \<Rightarrow> mat \<Rightarrow> vec" where
  "vec_mat v B = map (\<lambda>j. \<Sum>k\<leftarrow>[0..<length B]. v ! k * B ! k ! j) [0..<ncols B]"

definition mat_mul :: "mat \<Rightarrow> mat \<Rightarrow> mat" where
  "mat_mul A B = map (\<lambda>r. vec_mat r B) A"

definition np_diag :: "vec \<Rightarrow> mat" where
  "np_diag e = map (\<lambda>i. map (\<lambda>j. if i = j then e ! i else 0) [0..<length e]) [0..<length e]"

definition mat_T :: "mat \<Rightarrow> mat" where
  "mat_T A = map (\<lambda>j. map (\<lambda>i. A ! i ! j) [0..<length A]) [0..<ncols A]"

subsection \<open>Correlation distance (\<open>_cdist\<close>, lines 25-35)\<close>

definition cdist :: "vec \<Rightarrow> mat \<Rightarrow> mat \<Rightarrow> vec" where
  "cdist P Q Mhat_P =
     (let PQ_diff = map (\<lambda>q. map2 (-) P q) Q
      in map (\<lambda>r. sum_list (map2 (*) (vec_mat r Mhat_P) r)) PQ_diff)"

subsection \<open>Local correlation dimension and projection matrix (lines 119-131)\<close>

definition explanation_portion :: "vec \<Rightarrow> npfloat list" where
  "explanation_portion E0 =
     (let E = rev (sort E0) in map (\<lambda>c. np_divide c (sum_list E)) (cumsum E))"

definition lambda_P :: "real \<Rightarrow> vec \<Rightarrow> nat" where
  "lambda_P alpha E0 = searchsorted_left (explanation_portion E0) alpha + 1"

definition E_hat :: "nat \<Rightarrow> nat \<Rightarrow> vec" where
  "E_hat d lam = map (\<lambda>j. if j > lam then 1 else 0) [1..<d + 1]"

definition M_hat_P :: "nat \<Rightarrow> nat \<Rightarrow> mat \<Rightarrow> mat" where
  "M_hat_P d lam V = mat_mul (mat_mul V (np_diag (E_hat d lam))) (mat_T V)"

subsection \<open>Distance matrix of one partition (lines 141-166)\<close>

text \<open>First loop (lines 146-152): the upper triangle, row by row, into the condensed
  array \<open>cdist_P\<close>; \<open>start\<close> is threaded through the iterations.\<close>

definition cdist_P_step :: "mat \<Rightarrow> mat list \<Rightarrow> nat list \<Rightarrow> nat \<Rightarrow> nat \<times> vec \<Rightarrow> nat \<times> vec" where
  "cdist_P_step X M_hat D i st =
     (let n_D = length D;
          start = fst st;
          cdist_P = snd st;
          p = D ! i;
          q = py_slice D (i + 1) n_D;
          stop = start + n_D - i - 1
      in (stop, slice_assign cdist_P start stop
                  (cdist (X ! p) (map (\<lambda>t. X ! t) q) (M_hat ! p))))"

definition cdist_P_loop :: "mat \<Rightarrow> mat list \<Rightarrow> nat list \<Rightarrow> vec" where
  "cdist_P_loop X M_hat D =
     (let n_D = length D
      in snd (fold (cdist_P_step X M_hat D) [0..<n_D - 1]
                (0, replicate (n_D * (n_D - 1) div 2) (- 1))))"

text \<open>Second loop (lines 154-157): the lower triangle into the square array \<open>cdist_Q\<close>.\<close>

definition cdist_Q_step :: "mat \<Rightarrow> mat list \<Rightarrow> nat list \<Rightarrow> nat \<Rightarrow> mat \<Rightarrow> mat" where
  "cdist_Q_step X M_hat D i cdist_Q =
     (let q = D ! i;
          p = py_slice D 0 i
      in cdist_Q[i := slice_assign (cdist_Q ! i) 0 i
                        (cdist (X ! q) (map (\<lambda>t. X ! t) p) (M_hat ! q))])"

definition cdist_Q_loop :: "mat \<Rightarrow> mat list \<Rightarrow> nat list \<Rightarrow> mat" where
  "cdist_Q_loop X M_hat D =
     (let n_D = length D
      in fold (cdist_Q_step X M_hat D) [1..<n_D] (replicate n_D (replicate n_D (- 1))))"

text \<open>\<open>np.triu_indices_from(A, k=1)\<close> for an \<open>n \<times> n\<close> array: the pairs \<open>i < j\<close>, row-major.\<close>

definition triu_indices :: "nat \<Rightarrow> (nat \<times> nat) list" where
  "triu_indices n = concat (map (\<lambda>i. map (\<lambda>j. (i, j)) [i + 1..<n]) [0..<n])"

text \<open>\<open>scipy.spatial.distance.squareform\<close> from a condensed vector: the empty vector
  gives the \<open>1 \<times> 1\<close> zero matrix, a vector of length \<open>n (n - 1) / 2\<close> the symmetric
  \<open>n \<times> n\<close> matrix with zero diagonal, any other length is rejected.\<close>

definition condensed_index :: "nat \<Rightarrow> nat \<Rightarrow> nat \<Rightarrow> nat" where
  "condensed_index n i j = n * i - i * (i + 1) div 2 + (j - i - 1)"

definition squareform :: "npfloat list \<Rightarrow> error + npmat" where
  "squareform v =
     (if v = [] then Inr [[Fin 0]]
      else case find (\<lambda>n. n * (n - 1) = 2 * length v) [0..<2 * length v + 2] of
             None \<Rightarrow> Inl ValueError
           | Some n \<Rightarrow>
               Inr (map (\<lambda>i. map (\<lambda>j. if i = j then Fin 0
                                       else if i < j then v ! condensed_index n i j
                                       else v ! condensed_index n j i) [0..<n]) [0..<n]))"

text \<open>Lines 141-166: the matrix handed to the density clustering, from the feature
  array, the list \<open>M_hat\<close> of the matrices of the points and the partition \<open>D\<close>.\<close>

definition partition_dist :: "mat \<Rightarrow> mat list \<Rightarrow> nat list \<Rightarrow> error + npmat" where
  "partition_dist X M_hat D =
     (let n_D = length D;
          cdist_P = cdist_P_loop X M_hat D;
          cdist_Q = cdist_Q_loop X M_hat D;
          cdist_Q_flat = map (\<lambda>(i, j). cdist_Q ! j ! i) (triu_indices n_D);
          cdist_max = map2 max cdist_P cdist_Q_flat
      in squareform (map np_sqrt cdist_max))"

subsection \<open>Merging the labels of the partitions (lines 138-179)\<close>

record merge_state =
  max_label :: int
  y_arr :: "int list"
  used_y :: "bool list"

text \<open>\<open>ys[D] = v\<close> with an index array \<open>D\<close>: \<open>v\<close> has the length of \<open>D\<close>, or length one
  and is broadcast; an index outside \<open>ys\<close> and any other length are errors.\<close>

definition fancy_assign :: "'a list \<Rightarrow> nat list \<Rightarrow> 'a list \<Rightarrow> error + 'a list" where
  "fancy_assign ys D v =
     (if \<exists>i \<in> set D. length ys \<le> i then Inl IndexError
      else if length v = length D then Inr (fold (\<lambda>(i, x) acc. acc[i := x]) (zip D v) ys)
      else if length v = 1 then Inr (fold (\<lambda>i acc. acc[i := v ! 0]) D ys)
      else Inl ValueError)"

text \<open>The body of the loop over the partitions (lines 141-177); the density clustering of
  line 167 may raise.\<close>

definition partition_body ::
  "mat \<Rightarrow> mat list \<Rightarrow> (npmat \<Rightarrow> error + int list) \<Rightarrow> nat list \<Rightarrow> merge_state
     \<Rightarrow> error + merge_state" where
  "partition_body X M_hat clust D st =
     (case partition_dist X M_hat D of
        Inl e \<Rightarrow> Inl e
      | Inr cd \<Rightarrow>
          (case clust cd of
             Inl e \<Rightarrow> Inl e
           | Inr labels \<Rightarrow>
               (let y_D = map (\<lambda>l. l + max_label st) labels;
                    new_labels = int (length (remdups (filter (\<lambda>l. 0 \<le> l) labels)))
                in case fancy_assign (y_arr st) D y_D of
                     Inl e \<Rightarrow> Inl e
                   | Inr y' \<Rightarrow>
                       (case fancy_assign (used_y st) D [True] of
                          Inl e \<Rightarrow> Inl e
                        | Inr u' \<Rightarrow>
                            Inr \<lparr>max_label = max_label st + new_labels, y_arr = y',
                                 used_y = u'\<rparr>))))"

text \<open>The loop of line 140.\<close>

fun partition_loop ::
  "mat \<Rightarrow> mat list \<Rightarrow> (npmat \<Rightarrow> error + int list) \<Rightarrow> nat list list \<Rightarrow> merge_state
     \<Rightarrow> error + merge_state" where
  "partition_loop X M_hat clust [] st = Inr st"
| "partition_loop X M_hat clust (D # Ds) st =
     (case partition_body X M_hat clust D st of
        Inl e \<Rightarrow> Inl e
      | Inr st' \<Rightarrow> partition_loop X M_hat clust Ds st')"

text \<open>The body and the loop with a density clustering that answers.\<close>

definition partition_step ::
  "mat \<Rightarrow> mat list \<Rightarrow> (npmat \<Rightarrow> int list) \<Rightarrow> nat list \<Rightarrow> merge_state \<Rightarrow> error + merge_state" where
  "partition_step X M_hat dbscan D st = partition_body X M_hat (\<lambda>cd. Inr (dbscan cd)) D st"

definition merge_loop ::
  "mat \<Rightarrow> mat list \<Rightarrow> (npmat \<Rightarrow> int list) \<Rightarrow> nat list list \<Rightarrow> merge_state \<Rightarrow> error + merge_state" where
  "merge_loop X M_hat dbscan Ds st = partition_loop X M_hat (\<lambda>cd. Inr (dbscan cd)) Ds st"

subsection \<open>The function \<open>copac\<close> from the answers of its collaborators\<close>

text \<open>\<open>check_array\<close>: the input is a non-empty rectangular array with at least one column.\<close>

definition check_array :: "mat \<Rightarrow> error + mat" where
  "check_array X =
     (if X = [] \<or> ncols X = 0 \<or> (\<exists>r \<in> set X. length r \<noteq> ncols X) then Inl ValueError
      else Inr X)"

definition lambda_all :: "real \<Rightarrow> (nat \<Rightarrow> vec \<times> mat) \<Rightarrow> nat \<Rightarrow> nat list" where
  "lambda_all alpha nbhd_eigh n = map (\<lambda>P. lambda_P alpha (fst (nbhd_eigh P))) [0..<n]"

definition M_hat_all :: "real \<Rightarrow> (nat \<Rightarrow> vec \<times> mat) \<Rightarrow> nat \<Rightarrow> nat \<Rightarrow> mat list" where
  "M_hat_all alpha nbhd_eigh n d =
     map (\<lambda>P. M_hat_P d (lambda_P alpha (fst (nbhd_eigh P))) (snd (nbhd_eigh P))) [0..<n]"

definition partitions :: "(nat list \<Rightarrow> nat list) \<Rightarrow> nat list \<Rightarrow> nat \<Rightarrow> nat list list" where
  "partitions argsort lambda_arr d =
     (let argsorted = argsort lambda_arr;
          edges = histogram (map (\<lambda>i. lambda_arr ! i) argsorted) d
      in np_split argsorted (cumsum edges))"

text \<open>Lines 121-177, for the eigen-decompositions \<open>nbhd_eigh\<close> of the neighbourhoods: the
  state after the loop over the partitions.\<close>

definition copac_state ::
  "mat \<Rightarrow> real \<Rightarrow> (nat \<Rightarrow> vec \<times> mat) \<Rightarrow> (nat list \<Rightarrow> nat list) \<Rightarrow> (npmat \<Rightarrow> int list)
     \<Rightarrow> error + merge_state" where
  "copac_state X alpha nbhd_eigh argsort dbscan =
     (let n = length X;
          d = ncols X;
          lambda_arr = lambda_all alpha nbhd_eigh n;
          M_hat = M_hat_all alpha nbhd_eigh n d;
          Ds = partitions argsort lambda_arr d
      in merge_loop X M_hat dbscan Ds
           \<lparr>max_label = 0, y_arr = replicate n (- 1), used_y = replicate n False\<rparr>)"

text \<open>Line 97 and lines 121-179.\<close>

definition copac ::
  "mat \<Rightarrow> real \<Rightarrow> (nat \<Rightarrow> vec \<times> mat) \<Rightarrow> (nat list \<Rightarrow> nat list) \<Rightarrow> (npmat \<Rightarrow> int list)
     \<Rightarrow> error + int list" where
  "copac X0 alpha nbhd_eigh argsort dbscan =
     (case check_array X0 of
        Inl e \<Rightarrow> Inl e
      | Inr X \<Rightarrow>
          (case copac_state X alpha nbhd_eigh argsort dbscan of
             Inl e \<Rightarrow> Inl e
           | Inr st \<Rightarrow>
               if list_all (\<lambda>b. b) (used_y st) then Inr (y_arr st) else Inl AssertionError))"

subsection \<open>The whole call \<open>copac(X, k, mu, eps, alpha)\<close> (lines 97-179)\<close>

text \<open>
  The collaborators of the call may raise:
  \<^item> \<open>kneighbors X k\<close>: \<open>nn.kneighbors(return_distance=False)\<close> of line 112 on the
    neighbour search fitted to \<open>X\<close> with \<open>n_neighbors = k\<close>; the index array it returns
    has one row per point and is read as the function from the point to its row;
  \<^item> \<open>eigh N_P\<close>: \<open>LA.eigh(np.cov(N_P, rowvar=False, ddof=0))\<close> of lines 117-120 for a
    neighbourhood \<open>N_P\<close> of at least two rows and two columns;
  \<^item> \<open>argsort\<close>: \<open>np.argsort\<close>;
  \<^item> \<open>dbscan cd eps mu\<close>: the density clustering of line 167 on the distance matrix
    \<open>cd\<close>, with \<open>eps\<close> and \<open>min_samples = mu\<close>, returning the label vector.
  Two failures of lines 108-120 do not depend on the data and are written out: fitting
  the neighbour search (line 111) rejects \<open>k < 1\<close>, and \<open>np.cov\<close> returns a
  0-dimensional array when it is given a single variable, which \<open>LA.eigh\<close> rejects
  (line 120); with \<open>rowvar=False\<close> this is the case for a neighbourhood of one column, and
  for one of a single row, which \<open>np.cov\<close> reads as a single variable.
\<close>

text \<open>\<open>X[knn]\<close> with an index array (line 114).\<close>

definition take_rows :: "mat \<Rightarrow> nat list \<Rightarrow> error + mat" where
  "take_rows X knn =
     (if \<exists>i \<in> set knn. length X \<le> i then Inl IndexError else Inr (map (\<lambda>i. X ! i) knn))"

text \<open>Lines 117-120.\<close>

definition cov_eigh :: "(mat \<Rightarrow> error + vec \<times> mat) \<Rightarrow> mat \<Rightarrow> error + vec \<times> mat" where
  "cov_eigh eigh N_P = (if length N_P = 1 \<or> ncols N_P = 1 then Inl ValueError else eigh N_P)"

text \<open>The loop of lines 113-131 over the points, as far as it can raise: the pairs
  \<open>(E, V)\<close> of the points, or the error of the first point that fails.  The rest of the
  body (lines 121-131) cannot raise and is \<open>lambda_all\<close> and \<open>M_hat_all\<close>.\<close>

fun analyse ::
  "mat \<Rightarrow> (mat \<Rightarrow> error + vec \<times> mat) \<Rightarrow> (nat \<Rightarrow> nat list) \<Rightarrow> nat list
     \<Rightarrow> error + (vec \<times> mat) list" where
  "analyse X eigh knns [] = Inr []"
| "analyse X eigh knns (P # Ps) =
     (case take_rows X (knns P) of
        Inl e \<Rightarrow> Inl e
      | Inr N_P \<Rightarrow>
          (case cov_eigh eigh N_P of
             Inl e \<Rightarrow> Inl e
           | Inr EV \<Rightarrow>
               (case analyse X eigh knns Ps of
                  Inl e \<Rightarrow> Inl e
                | Inr EVs \<Rightarrow> Inr (EV # EVs))))"

text \<open>Lines 108-120: the neighbour search is fitted (line 111), queried (line 112), and
  the neighbourhood of each point is decomposed.\<close>

definition neighbourhood_eighs ::
  "mat \<Rightarrow> int \<Rightarrow> (mat \<Rightarrow> int \<Rightarrow> error + (nat \<Rightarrow> nat list)) \<Rightarrow> (mat \<Rightarrow> error + vec \<times> mat)
     \<Rightarrow> error + (vec \<times> mat) list" where
  "neighbourhood_eighs X k kneighbors eigh =
     (if k < 1 then Inl ValueError
      else case kneighbors X k of
             Inl e \<Rightarrow> Inl e
           | Inr knns \<Rightarrow> analyse X eigh knns [0..<length X])"

definition copac_call ::
  "mat \<Rightarrow> int \<Rightarrow> int \<Rightarrow> real \<Rightarrow> real
     \<Rightarrow> (mat \<Rightarrow> int \<Rightarrow> error + (nat \<Rightarrow> nat list)) \<Rightarrow> (mat \<Rightarrow> error + vec \<times> mat)
     \<Rightarrow> (nat list \<Rightarrow> nat list) \<Rightarrow> (npmat \<Rightarrow> real \<Rightarrow> int \<Rightarrow> error + int list)
     \<Rightarrow> error + int list" where
  "copac_call X0 k mu eps alpha kneighbors eigh argsort dbscan =
     (case check_array X0 of
        Inl e \<Rightarrow> Inl e
      | Inr X \<Rightarrow>
          (case neighbourhood_eighs X k kneighbors eigh of
             Inl e \<Rightarrow> Inl e
           | Inr EVs \<Rightarrow>
               (let n = length X;
                    d = ncols X;
                    lambda_arr = lambda_all alpha (\<lambda>P. EVs ! P) n;
                    M_hat = M_hat_all alpha (\<lambda>P. EVs ! P) n d;
                    Ds = partitions argsort lambda_arr d
                in case partition_loop X M_hat (\<lambda>cd. dbscan cd eps mu) Ds
                          \<lparr>max_label = 0, y_arr = replicate n (- 1),
                            used_y = replicate n False\<rparr> of
                     Inl e \<Rightarrow> Inl e
                   | Inr st \<Rightarrow>
                       if list_all (\<lambda>b. b) (used_y st) then Inr (y_arr st)
                       else Inl AssertionError)))"

subsection \<open>The quantities the specification speaks of\<close>

text \<open>The cumulative explained variance at position \<open>j\<close>, scanning the eigenvalues from
  the largest: the sum of the \<open>j + 1\<close> largest eigenvalues over the sum of all.\<close>

definition explained_variance_ratio :: "vec \<Rightarrow> nat \<Rightarrow> real" where
  "explained_variance_ratio E j = sum_list (take (Suc j) (rev (sort E))) / sum_list E"



text \<open>A \<open>d \<times> d\<close> array.\<close>

definition square_mat :: "nat \<Rightarrow> mat \<Rightarrow> bool" where
  "square_mat d M = (length M = d \<and> list_all (\<lambda>row. length row = d) M)"

subsection \<open>Auxiliary notions of the proofs\<close>

text \<open>The largest value counted by the first \<open>j + 1\<close> bins of the histogram of line 135.\<close>

definition bin_upper :: "nat \<Rightarrow> nat \<Rightarrow> nat" where
  "bin_upper d j = (if Suc j = d then d + 1 else Suc j)"

text \<open>A stable argsort, one of the orders \<open>np.argsort\<close> may return.\<close>

definition stable_argsort :: "nat list \<Rightarrow> nat list" where
  "stable_argsort xs = sort_key (\<lambda>i. xs ! i) [0..<length xs]"

text \<open>The value \<open>_cdist\<close> computes for the points at positions \<open>i\<close> and \<open>j\<close> of a
  partition \<open>D\<close>, with the matrix of the point at position \<open>i\<close>.\<close>

definition cdist_pair :: "mat \<Rightarrow> mat list \<Rightarrow> nat list \<Rightarrow> nat \<Rightarrow> nat \<Rightarrow> real" where
  "cdist_pair X M_hat D i j =
     sum_list (map2 (*) (vec_mat (map2 (-) (X ! (D ! i)) (X ! (D ! j))) (M_hat ! (D ! i)))
                        (map2 (-) (X ! (D ! i)) (X ! (D ! j))))"

text \<open>The symmetric \<open>n \<times> n\<close> array with zero diagonal and \<open>w i j\<close>, \<open>i < j\<close>, off the
  diagonal.\<close>

definition symmetric_fill :: "nat \<Rightarrow> (nat \<Rightarrow> nat \<Rightarrow> npfloat) \<Rightarrow> npmat" where
  "symmetric_fill n w =
     map (\<lambda>i. map (\<lambda>j. if i = j then Fin 0 else if i < j then w i j else w j i) [0..<n]) [0..<n]"

subsection \<open>Example inputs\<close>

text \<open>Four points of a line in the plane, \<open>k = 3\<close>: the neighbours of each point are
  the three others, their covariance is \<open>diag (v, 0)\<close>, and \<open>LA.eigh\<close> returns the
  eigenvalues \<open>[0, v]\<close> with the eigenvectors in the columns.\<close>

definition ex4_X :: mat where
  "ex4_X = [[0, 0], [1, 0], [2, 0], [3, 0]]"

definition ex4_eigh :: "nat \<Rightarrow> vec \<times> mat" where
  "ex4_eigh P = ([0, [2/3, 14/9, 14/9, 2/3] ! P], [[0, 1], [1, 0]])"

text \<open>A density clustering that puts every sample in cluster 0 (a large \<open>eps\<close>,
  \<open>min_samples = 1\<close>).\<close>

definition one_cluster :: "npmat \<Rightarrow> int list" where
  "one_cluster cd = replicate (length cd) 0"

text \<open>Ten points of the plane, \<open>k = 3\<close>: three collinear triples and the origin.  The three
  nearest neighbours of a point of a triple are the two others and the origin, all on one
  axis, so one eigenvalue of the covariance is 0; those of the origin are \<open>(0, 19)\<close>,
  \<open>(20, 0)\<close> and \<open>(-20, 0)\<close>, with covariance \<open>diag (800/3, 722/9)\<close>.  Each pair is what
  \<open>LA.eigh\<close> returns: the eigenvalues ascending, the eigenvectors in the columns.  With
  \<open>eps = 5\<close> and \<open>min_samples = 3\<close> the density clustering finds the three triples in the
  partition of correlation dimension 1, and calls a single sample noise.\<close>

definition ex10_X :: mat where
  "ex10_X = [[20, 0], [22, 0], [24, 0], [- 20, 0], [- 22, 0], [- 24, 0],
             [0, 19], [0, 21], [0, 23], [0, 0]]"

definition ex10_eigh :: "nat \<Rightarrow> vec \<times> mat" where
  "ex10_eigh P =
     (if P < 6 then ([0, [1064/9, 992/9, 296/3, 1064/9, 992/9, 296/3] ! P], [[0, 1], [1, 0]])
      else if P < 9 then ([0, [974/9, 302/3, 806/9] ! (P - 6)], [[1, 0], [0, 1]])
      else ([722/9, 800/3], [[0, 1], [1, 0]]))"

definition ex10_dbscan :: "npmat \<Rightarrow> int list" where
  "ex10_dbscan cd = (if length cd = 9 then [0, 0, 0, 1, 1, 1, 2, 2, 2] else [- 1])"

text \<open>Collaborators for the whole call on such inputs.  The neighbour search by brute
  force with the Euclidean metric, the point itself excluded; it rejects \<open>k \<ge> n\<close>.\<close>

definition sq_dist :: "vec \<Rightarrow> vec \<Rightarrow> real" where
  "sq_dist P Q = sum_list (map2 (\<lambda>a b. (a - b) * (a - b)) P Q)"

definition brute_kneighbors :: "mat \<Rightarrow> int \<Rightarrow> error + (nat \<Rightarrow> nat list)" where
  "brute_kneighbors X k =
     (if int (length X) \<le> k then Inl ValueError
      else Inr (\<lambda>P. take (nat k)
                      (sort_key (\<lambda>Q. sq_dist (X ! P) (X ! Q))
                         (filter (\<lambda>Q. Q \<noteq> P) [0..<length X]))))"

text \<open>\<open>LA.eigh\<close> of the covariance of a neighbourhood of the plane whose two coordinates
  are uncorrelated: the covariance is diagonal, the eigenvalues are the two variances in
  ascending order and the eigenvectors are the axes.\<close>

definition variance :: "vec \<Rightarrow> real" where
  "variance xs =
     sum_list (map (\<lambda>x. (x - sum_list xs / real (length xs)) * (x - sum_list xs / real (length xs))) xs)
       / real (length xs)"

definition axis_eigh :: "mat \<Rightarrow> error + vec \<times> mat" where
  "axis_eigh N =
     (let vx = variance (map (\<lambda>r. r ! 0) N);
          vy = variance (map (\<lambda>r. r ! 1) N)
      in Inr (if vx \<le> vy then ([vx, vy], [[1, 0], [0, 1]]) else ([vy, vx], [[0, 1], [1, 0]])))"

text \<open>The density clustering on a distance matrix all of whose entries are at most
  \<open>eps\<close>: every sample has all samples in its neighbourhood, so they form one cluster if
  they are at least \<open>mu\<close> and are noise otherwise; \<open>eps \<le> 0\<close> is rejected.\<close>

definition near_labels :: "npmat \<Rightarrow> int \<Rightarrow> int list" where
  "near_labels cd mu = replicate (length cd) (if mu \<le> int (length cd) then 0 else - 1)"

definition near_dbscan :: "npmat \<Rightarrow> real \<Rightarrow> int \<Rightarrow> error + int list" where
  "near_dbscan cd eps mu = (if eps \<le> 0 then Inl ValueError else Inr (near_labels cd mu))"

text \<open>Four points of the plane, \<open>k = 2\<close>.  The two nearest neighbours of the points 1 and 2
  are the points 0 and 3, whose covariance has the eigenvalues 0 and 10 and the
  eigenvector \<open>v = (3, -1) / sqrt 10\<close> for 10.  Both points get correlation dimension 1 and
  the matrix \<open>v v\<^sup>t\<close>, in exact arithmetic \<open>[[0.9, -0.3], [-0.3, 0.1]]\<close>.  \<open>ex_round_M\<close> is
  this matrix as the eigen-decomposition and the products of line 131 give it in double
  precision: the doubles \<open>0.8999999999999999\<close>, \<open>-0.29999999999999993\<close> and
  \<open>0.09999999999999996\<close>, written as fractions.\<close>

definition ex_round_X :: mat where
  "ex_round_X = [[- 3, 3], [- 1, - 6], [3, 6], [3, 1]]"

definition ex_round_M :: mat where
  "ex_round_M = [[2026619832316723 / 2251799813685248, - (2702159776422297 / 9007199254740992)],
                 [- (2702159776422297 / 9007199254740992), 7205759403792791 / 72057594037927936]]"

section \<open>The local correlation dimension\<close>

lemma length_cumsum_from [simp]: "length (cumsum_from acc xs) = length xs"
  by (induction xs arbitrary: acc) auto

lemma length_cumsum [simp]: "length (cumsum xs) = length xs"
  by (simp add: cumsum_def)

lemma cumsum_from_nth:
  "i < length xs \<Longrightarrow> cumsum_from acc xs ! i = acc + sum_list (take (Suc i) xs)"
proof (induction xs arbitrary: acc i)
  case Nil
  then show ?case by simp
next
  case (Cons x xs)
  show ?case
  proof (cases i)
    case 0
    then show ?thesis by simp
  next
    case (Suc k)
    with Cons.prems have "k < length xs" by simp
    from Cons.IH[OF this, of "acc + x"] Suc show ?thesis
      by (simp only: cumsum_from.simps nth_Cons_Suc take_Suc_Cons sum_list.Cons add.assoc)
  qed
qed

lemma cumsum_nth: "i < length xs \<Longrightarrow> cumsum xs ! i = sum_list (take (Suc i) xs)"
  by (simp add: cumsum_def cumsum_from_nth)

lemma bsearch_left_spec:
  assumes "\<forall>i j. i \<le> j \<and> j < length a \<and> np_less (a ! j) v \<longrightarrow> np_less (a ! i) v"
    and "lo \<le> hi" and "hi \<le> length a"
    and "\<forall>i<lo. np_less (a ! i) v"
    and "\<forall>i. hi \<le> i \<and> i < length a \<longrightarrow> \<not> np_less (a ! i) v"
  shows "lo \<le> bsearch_left a v lo hi \<and> bsearch_left a v lo hi \<le> hi
       \<and> (\<forall>i<bsearch_left a v lo hi. np_less (a ! i) v)
       \<and> (\<forall>i. bsearch_left a v lo hi \<le> i \<and> i < length a \<longrightarrow> \<not> np_less (a ! i) v)"
  using assms
proof (induction a v lo hi rule: bsearch_left.induct)
  case (1 a v lo hi)
  note mono = 1(3) and lohi = 1(4) and hilen = 1(5) and below = 1(6) and above = 1(7)
  show ?case
  proof (cases "lo < hi")
    case False
    have r: "bsearch_left a v lo hi = lo"
      using False by (subst bsearch_left.simps[of a v lo hi]) simp
    have hl: "hi \<le> lo" using False by simp
    have "lo \<le> lo \<and> lo \<le> hi \<and> (\<forall>i<lo. np_less (a ! i) v)
        \<and> (\<forall>i. lo \<le> i \<and> i < length a \<longrightarrow> \<not> np_less (a ! i) v)"
    proof (intro conjI allI impI)
      show "lo \<le> lo" by simp
      show "lo \<le> hi" by (rule lohi)
    next
      fix i assume "i < lo"
      then show "np_less (a ! i) v" using below by blast
    next
      fix i assume "lo \<le> i \<and> i < length a"
      then have "hi \<le> i \<and> i < length a" using hl by simp
      then show "\<not> np_less (a ! i) v" using above by blast
    qed
    then show ?thesis unfolding r .
  next
    case True
    define mid where "mid = lo + (hi - lo) div 2"
    have m: "lo \<le> mid" "mid < hi" using True by (auto simp: mid_def)
    show ?thesis
    proof (cases "np_less (a ! mid) v")
      case T: True
      have eq: "bsearch_left a v lo hi = bsearch_left a v (mid + 1) hi"
        using True T by (subst bsearch_left.simps[of a v lo hi]) (simp add: mid_def Let_def)
      have below': "\<forall>i<mid + 1. np_less (a ! i) v"
      proof (intro allI impI)
        fix i assume "i < mid + 1"
        then have "i \<le> mid" by simp
        moreover have "mid < length a" using m hilen by simp
        ultimately show "np_less (a ! i) v" using mono T by blast
      qed
      have "mid + 1 \<le> hi" using m by simp
      from 1(1)[OF True mid_def T mono this hilen below' above]
      show ?thesis unfolding eq using m by simp
    next
      case F: False
      have eq: "bsearch_left a v lo hi = bsearch_left a v lo mid"
        using True F by (subst bsearch_left.simps[of a v lo hi]) (simp add: mid_def Let_def)
      have above': "\<forall>i. mid \<le> i \<and> i < length a \<longrightarrow> \<not> np_less (a ! i) v"
        using mono F by blast
      have "mid \<le> length a" using m hilen by simp
      from 1(2)[OF True mid_def F mono m(1) this below above']
      show ?thesis unfolding eq using m by simp
    qed
  qed
qed


lemma searchsorted_left_spec:
  assumes "\<forall>i j. i \<le> j \<and> j < length a \<and> np_less (a ! j) v \<longrightarrow> np_less (a ! i) v"
  shows "searchsorted_left a v \<le> length a
       \<and> (\<forall>i<searchsorted_left a v. np_less (a ! i) v)
       \<and> (\<forall>i. searchsorted_left a v \<le> i \<and> i < length a \<longrightarrow> \<not> np_less (a ! i) v)"
proof -
  have "0 \<le> bsearch_left a v 0 (length a) \<and> bsearch_left a v 0 (length a) \<le> length a
       \<and> (\<forall>i<bsearch_left a v 0 (length a). np_less (a ! i) v)
       \<and> (\<forall>i. bsearch_left a v 0 (length a) \<le> i \<and> i < length a \<longrightarrow> \<not> np_less (a ! i) v)"
    by (rule bsearch_left_spec[OF assms]) auto
  then show ?thesis unfolding searchsorted_left_def by simp
qed

lemma sum_list_sort_real [simp]: "sum_list (sort E) = sum_list (E::real list)"
proof -
  have "sum_list (sort E) = sum_mset (mset (sort E))"
    by (rule sum_mset_sum_list[symmetric])
  also have "\<dots> = sum_mset (mset E)" by simp
  also have "\<dots> = sum_list E" by (rule sum_mset_sum_list)
  finally show ?thesis .
qed

lemma length_explanation_portion [simp]: "length (explanation_portion E) = length E"
  by (simp add: explanation_portion_def Let_def)

lemma explanation_portion_nth:
  "i < length E \<Longrightarrow>
   explanation_portion E ! i = np_divide (sum_list (take (Suc i) (rev (sort E)))) (sum_list E)"
  by (simp add: explanation_portion_def Let_def cumsum_nth)

lemma explanation_portion_pos:
  "i < length E \<Longrightarrow> sum_list E \<noteq> 0 \<Longrightarrow>
   explanation_portion E ! i = Fin (explained_variance_ratio E i)"
  by (simp add: explanation_portion_nth np_divide_def explained_variance_ratio_def)

lemma prefix_sum_mono:
  assumes "\<forall>e\<in>set xs. (0::real) \<le> e" and "i \<le> j"
  shows "sum_list (take i xs) \<le> sum_list (take j xs)"
proof -
  have "take j xs = take i xs @ take (j - i) (drop i xs)"
    using assms(2) by (metis le_add_diff_inverse take_add)
  moreover have "0 \<le> sum_list (take (j - i) (drop i xs))"
    using assms(1) by (intro sum_list_nonneg) (meson in_set_dropD in_set_takeD)
  ultimately show ?thesis by simp
qed

lemma prefix_sum_nonneg:
  assumes "\<forall>e\<in>set xs. (0::real) \<le> e"
  shows "0 \<le> sum_list (take i xs)"
  using assms by (intro sum_list_nonneg) (meson in_set_takeD)

lemma sorted_desc_nonneg:
  "\<forall>e\<in>set E. (0::real) \<le> e \<Longrightarrow> \<forall>e\<in>set (rev (sort E)). 0 \<le> e"
  by simp

lemma explained_variance_ratio_mono:
  assumes "\<forall>e\<in>set E. 0 \<le> e" and "i \<le> j"
  shows "explained_variance_ratio E i \<le> explained_variance_ratio E j"
proof -
  have "sum_list (take (Suc i) (rev (sort E))) \<le> sum_list (take (Suc j) (rev (sort E)))"
    using sorted_desc_nonneg[OF assms(1)] assms(2) by (intro prefix_sum_mono) simp_all
  moreover have "0 \<le> sum_list E" using assms(1) by (intro sum_list_nonneg) simp
  ultimately show ?thesis
    unfolding explained_variance_ratio_def by (rule divide_right_mono)
qed

lemma explanation_portion_downward:
  assumes "\<forall>e\<in>set E. 0 \<le> e"
  shows "\<forall>i j. i \<le> j \<and> j < length (explanation_portion E) \<and> np_less (explanation_portion E ! j) v
           \<longrightarrow> np_less (explanation_portion E ! i) v"
proof (intro allI impI)
  fix i j
  assume h: "i \<le> j \<and> j < length (explanation_portion E) \<and> np_less (explanation_portion E ! j) v"
  then have ij: "i \<le> j" and j: "j < length E" and i: "i < length E"
    and lt: "np_less (explanation_portion E ! j) v" by simp_all
  show "np_less (explanation_portion E ! i) v"
  proof (cases "sum_list E = 0")
    case True
    have "0 \<le> sum_list (take (Suc j) (rev (sort E)))"
      using sorted_desc_nonneg[OF assms] by (rule prefix_sum_nonneg)
    then have "\<not> np_less (explanation_portion E ! j) v"
      using True j by (simp add: explanation_portion_nth np_divide_def np_less_def)
    with lt show ?thesis by simp
  next
    case False
    have "explained_variance_ratio E j < v"
      using lt False j by (simp add: explanation_portion_pos np_less_def)
    moreover have "explained_variance_ratio E i \<le> explained_variance_ratio E j"
      using assms ij by (rule explained_variance_ratio_mono)
    ultimately show ?thesis
      using False i by (simp add: explanation_portion_pos np_less_def)
  qed
qed

lemma explained_variance_ratio_last:
  assumes "sum_list E \<noteq> 0" and "E \<noteq> []"
  shows "explained_variance_ratio E (length E - 1) = 1"
proof -
  have "Suc (length E - 1) = length (rev (sort E))" using assms(2) by (cases E) simp_all
  then have "take (Suc (length E - 1)) (rev (sort E)) = rev (sort E)" by simp
  then show ?thesis using assms(1) by (simp add: explained_variance_ratio_def)
qed

text \<open>
  Claim C6.  For a point whose neighbourhood has positive total variance (the eigenvalues
  of its covariance matrix are non-negative and their sum is positive) and a threshold
  \<open>alpha < 1\<close>, the correlation dimension computed by lines 122-127 is one plus the first
  position, scanning the eigenvalues in descending order, at which the cumulative explained
  variance reaches or exceeds \<open>alpha\<close>: every earlier position is strictly below \<open>alpha\<close>,
  equality counts as reached.  It lies between 1 and the number \<open>d\<close> of eigenvalues.
\<close>

theorem lambda_P_first_reached:
  assumes "\<forall>e\<in>set E. 0 \<le> e" and "0 < sum_list E" and "alpha < 1"
  shows "1 \<le> lambda_P alpha E \<and> lambda_P alpha E \<le> length E
       \<and> (\<forall>j<lambda_P alpha E - 1. explained_variance_ratio E j < alpha)
       \<and> alpha \<le> explained_variance_ratio E (lambda_P alpha E - 1)"
proof -
  define r where "r = searchsorted_left (explanation_portion E) alpha"
  have lam: "lambda_P alpha E = r + 1" by (simp add: lambda_P_def r_def)
  have ne: "E \<noteq> []" using assms(2) by auto
  have nz: "sum_list E \<noteq> 0" using assms(2) by simp
  have spec: "r \<le> length E
       \<and> (\<forall>i<r. np_less (explanation_portion E ! i) alpha)
       \<and> (\<forall>i. r \<le> i \<and> i < length E \<longrightarrow> \<not> np_less (explanation_portion E ! i) alpha)"
    using searchsorted_left_spec[OF explanation_portion_downward[OF assms(1)], of alpha]
    by (simp add: r_def)
  have last: "\<not> np_less (explanation_portion E ! (length E - 1)) alpha"
  proof -
    have idx: "length E - 1 < length E" using ne by (cases E) simp_all
    have "explanation_portion E ! (length E - 1) = Fin 1"
      using explanation_portion_pos[OF idx nz] explained_variance_ratio_last[OF nz ne]
      by simp
    then show ?thesis using assms(3) by (simp add: np_less_def)
  qed
  have rlt: "r < length E"
  proof (rule ccontr)
    assume "\<not> r < length E"
    then have "length E - 1 < r" using ne by (cases E) simp_all
    then have "np_less (explanation_portion E ! (length E - 1)) alpha" using spec by blast
    with last show False by simp
  qed
  have below: "\<forall>j<r. explained_variance_ratio E j < alpha"
  proof (intro allI impI)
    fix j assume jr: "j < r"
    then have "np_less (explanation_portion E ! j) alpha" using spec by blast
    moreover have "j < length E" using jr rlt by simp
    ultimately show "explained_variance_ratio E j < alpha"
      using nz by (simp add: explanation_portion_pos np_less_def)
  qed
  have "\<not> np_less (explanation_portion E ! r) alpha" using spec rlt by blast
  then have reach: "alpha \<le> explained_variance_ratio E r"
    using nz rlt by (simp add: explanation_portion_pos np_less_def)
  show ?thesis using rlt below reach by (simp add: lam)
qed

theorem lambda_P_first_reached_witness:
  "0 < sum_list [1, 3::real] \<and> (85/100::real) < 1
   \<and> lambda_P (85/100) [1, 3] = 2
   \<and> explained_variance_ratio [1, 3] 0 < 85/100
   \<and> 85/100 \<le> explained_variance_ratio [1, 3] 1"
proof -
  have h1: "\<forall>e\<in>set [1, 3::real]. 0 \<le> e" by simp
  have h2: "0 < sum_list [1, 3::real]" by simp
  have h3: "(85/100::real) < 1" by simp
  have v: "lambda_P (85/100) [1, 3] = 2" by code_simp
  have "(\<forall>j<2 - 1. explained_variance_ratio [1, 3] j < 85/100)
      \<and> 85/100 \<le> explained_variance_ratio [1, 3] (2 - 1)"
    using lambda_P_first_reached[OF h1 h2 h3] unfolding v by blast
  then show ?thesis using h2 h3 v by simp
qed

text \<open>
  Claim C9.  For fixed eigenvalues of a neighbourhood (non-negative, as those of a
  covariance matrix are; their sum may be zero) and thresholds \<open>alpha1 \<le> alpha2\<close>, the
  correlation dimension computed with \<open>alpha2\<close> is at least the one computed with \<open>alpha1\<close>.
\<close>

theorem lambda_P_mono_alpha:
  assumes "\<forall>e\<in>set E. 0 \<le> e" and "alpha1 \<le> alpha2"
  shows "lambda_P alpha1 E \<le> lambda_P alpha2 E"
proof -
  define r1 where "r1 = searchsorted_left (explanation_portion E) alpha1"
  define r2 where "r2 = searchsorted_left (explanation_portion E) alpha2"
  have s1: "r1 \<le> length E \<and> (\<forall>i<r1. np_less (explanation_portion E ! i) alpha1)"
    using searchsorted_left_spec[OF explanation_portion_downward[OF assms(1)], of alpha1]
    by (simp add: r1_def)
  have s2: "\<forall>i. r2 \<le> i \<and> i < length E \<longrightarrow> \<not> np_less (explanation_portion E ! i) alpha2"
    using searchsorted_left_spec[OF explanation_portion_downward[OF assms(1)], of alpha2]
    by (simp add: r2_def)
  have weaken: "\<And>x. np_less x alpha1 \<Longrightarrow> np_less x alpha2"
    using assms(2) by (auto simp: np_less_def split: npfloat.splits)
  have "r1 \<le> r2"
  proof (rule ccontr)
    assume "\<not> r1 \<le> r2"
    then have lt: "r2 < r1" by simp
    then have "np_less (explanation_portion E ! r2) alpha1" using s1 by blast
    then have "np_less (explanation_portion E ! r2) alpha2" by (rule weaken)
    moreover have "r2 < length E" using lt s1 by simp
    ultimately show False using s2 by blast
  qed
  then show ?thesis by (simp add: lambda_P_def r1_def r2_def)
qed

theorem lambda_P_mono_alpha_witness:
  "(1/2::real) \<le> 85/100 \<and> lambda_P (1/2) [1, 3] \<le> lambda_P (85/100) [1, 3]
   \<and> lambda_P (1/2) [1, 3] = 1 \<and> lambda_P (85/100) [1, 3] = 2"
proof -
  have h1: "\<forall>e\<in>set [1, 3::real]. 0 \<le> e" by simp
  have h2: "(1/2::real) \<le> 85/100" by simp
  have v1: "lambda_P (1/2) [1, 3] = 1" by code_simp
  have v2: "lambda_P (85/100) [1, 3] = 2" by code_simp
  show ?thesis
    using lambda_P_mono_alpha[OF h1 h2] h2 v1 v2 by blast
qed

section \<open>Partitioning the indices by correlation dimension\<close>

lemma py_slice_append:
  "a \<le> b \<Longrightarrow> b \<le> c \<Longrightarrow> py_slice xs a b @ py_slice xs b c = py_slice xs a c"
proof -
  assume ab: "a \<le> b" and bc: "b \<le> c"
  have "take (c - a) (drop a xs) = take ((b - a) + (c - b)) (drop a xs)"
    using ab bc by simp
  also have "\<dots> = take (b - a) (drop a xs) @ take (c - b) (drop (b - a) (drop a xs))"
    by (rule take_add)
  also have "drop (b - a) (drop a xs) = drop b xs" using ab by simp
  finally show ?thesis by (simp add: py_slice_def)
qed

lemma py_slice_full [simp]: "py_slice xs 0 (length xs) = xs"
  by (simp add: py_slice_def)

lemma sections_concat:
  "sorted (a # ps) \<Longrightarrow> concat (sections xs (a # ps)) = py_slice xs a (last (a # ps))"
proof (induction ps arbitrary: a)
  case Nil
  then show ?case by (simp add: py_slice_def)
next
  case (Cons b ps)
  have ab: "a \<le> b" and sb: "sorted (b # ps)" using Cons.prems by simp_all
  have bl: "b \<le> last (b # ps)" using sb by (metis last_in_set list.discI list.set_intros(1) set_ConsD sorted_simps(2) order_refl)
  have "concat (sections xs (a # b # ps)) = py_slice xs a b @ py_slice xs b (last (b # ps))"
    using Cons.IH[OF sb] by simp
  also have "\<dots> = py_slice xs a (last (b # ps))" using ab bl by (rule py_slice_append)
  finally show ?case by simp
qed

lemma length_sections [simp]: "length (sections xs ps) = length ps - 1"
  by (induction xs ps rule: sections.induct) simp_all

lemma sections_nth:
  "Suc i < length ps \<Longrightarrow> sections xs ps ! i = py_slice xs (ps ! i) (ps ! Suc i)"
proof (induction xs ps arbitrary: i rule: sections.induct)
  case (1 xs)
  then show ?case by simp
next
  case (2 xs a)
  then show ?case by simp
next
  case (3 xs a b r)
  then show ?case by (cases i) simp_all
qed

lemma sorted_cumsum_from:
  "sorted (cumsum_from (acc::nat) xs) \<and> (\<forall>c\<in>set (cumsum_from acc xs). acc \<le> c)"
proof (induction xs arbitrary: acc)
  case Nil
  then show ?case by simp
next
  case (Cons x xs)
  have ih: "sorted (cumsum_from (acc + x) xs) \<and> (\<forall>c\<in>set (cumsum_from (acc + x) xs). acc + x \<le> c)"
    by (rule Cons.IH)
  then show ?case by fastforce
qed

lemma count_eq_range:
  "(\<Sum>b\<leftarrow>[1..<m]. length (filter (\<lambda>v. v = b) vals))
     = length (filter (\<lambda>v. 1 \<le> v \<and> v < m) (vals::nat list))"
proof (induction m)
  case 0
  then show ?case by simp
next
  case (Suc m)
  show ?case
  proof (cases "1 \<le> m")
    case False
    then show ?thesis by simp
  next
    case True
    then have "[1..<Suc m] = [1..<m] @ [m]" by simp
    then have "(\<Sum>b\<leftarrow>[1..<Suc m]. length (filter (\<lambda>v. v = b) vals))
        = length (filter (\<lambda>v. 1 \<le> v \<and> v < m) vals) + length (filter (\<lambda>v. v = m) vals)"
      using Suc.IH by simp
    also have "\<dots> = length (filter (\<lambda>v. 1 \<le> v \<and> v < Suc m) vals)"
      using True by (induction vals) auto
    finally show ?thesis .
  qed
qed

lemma histogram_prefix:
  assumes "j < d"
  shows "sum_list (take (Suc j) (histogram vals d))
           = length (filter (\<lambda>v. 1 \<le> v \<and> v \<le> bin_upper d j) vals)"
proof (cases "Suc j = d")
  case False
  then have jd: "Suc j < d" using assms by simp
  have "take (Suc j) (histogram vals d)
      = map (\<lambda>b. length (filter (\<lambda>v. if b = d then d \<le> v \<and> v \<le> d + 1 else v = b) vals)) [1..<Suc (Suc j)]"
    using jd by (simp add: histogram_def take_map take_upt)
  also have "\<dots> = map (\<lambda>b. length (filter (\<lambda>v. v = b) vals)) [1..<Suc (Suc j)]"
    using jd by (intro map_cong) auto
  finally have "sum_list (take (Suc j) (histogram vals d))
      = length (filter (\<lambda>v. 1 \<le> v \<and> v < Suc (Suc j)) vals)"
    by (simp only: count_eq_range)
  moreover have "(\<lambda>v::nat. 1 \<le> v \<and> v < Suc (Suc j)) = (\<lambda>v. 1 \<le> v \<and> v \<le> bin_upper d j)"
    using False by (auto simp: bin_upper_def)
  ultimately show ?thesis by simp
next
  case True
  have up: "[1..<d + 1] = [1..<d] @ [d]" using assms by simp
  have "take (Suc j) (histogram vals d) = histogram vals d"
    using True by (simp add: histogram_def)
  also have "\<dots> = map (\<lambda>b. length (filter (\<lambda>v. v = b) vals)) [1..<d]
                      @ [length (filter (\<lambda>v. d \<le> v \<and> v \<le> d + 1) vals)]"
    unfolding histogram_def up by simp
  finally have "sum_list (take (Suc j) (histogram vals d))
      = (\<Sum>b\<leftarrow>[1..<d]. length (filter (\<lambda>v. v = b) vals))
        + length (filter (\<lambda>v. d \<le> v \<and> v \<le> d + 1) vals)"
    by (simp only: sum_list_append sum_list.Cons sum_list.Nil add_0_right)
  then have "sum_list (take (Suc j) (histogram vals d))
      = length (filter (\<lambda>v. 1 \<le> v \<and> v < d) vals) + length (filter (\<lambda>v. d \<le> v \<and> v \<le> d + 1) vals)"
    by (simp only: count_eq_range)
  also have "\<dots> = length (filter (\<lambda>v. 1 \<le> v \<and> v \<le> d + 1) vals)"
    using assms by (induction vals) auto
  finally show ?thesis using True by (simp add: bin_upper_def)
qed

lemma length_histogram [simp]: "length (histogram vals d) = d"
  by (simp add: histogram_def)

lemma cumsum_histogram_nth:
  assumes "j < d"
  shows "cumsum (histogram vals d) ! j = length (filter (\<lambda>v. 1 \<le> v \<and> v \<le> bin_upper d j) vals)"
  using assms by (simp add: cumsum_nth histogram_prefix)

lemma cumsum_histogram_le:
  assumes "c \<in> set (cumsum (histogram vals d))"
  shows "c \<le> length vals"
proof -
  obtain j where j: "j < d" and c: "c = cumsum (histogram vals d) ! j"
    using assms by (auto simp: in_set_conv_nth)
  show ?thesis unfolding c cumsum_histogram_nth[OF j] by (rule length_filter_le)
qed

lemma division_points_sorted:
  "sorted (0 # cumsum (histogram vals d) @ [length vals])"
proof -
  have "sorted (cumsum (histogram vals d))"
    using sorted_cumsum_from[of 0 "histogram vals d"] by (simp add: cumsum_def)
  then show ?thesis using cumsum_histogram_le by (auto simp: sorted_append)
qed

lemma np_split_histogram_concat:
  assumes "length vals = length xs"
  shows "concat (np_split xs (cumsum (histogram vals d))) = xs"
proof -
  have "sorted (0 # cumsum (histogram vals d) @ [length xs])"
    using division_points_sorted[of vals d] assms by simp
  from sections_concat[OF this, of xs] show ?thesis by (simp add: np_split_def)
qed

lemma partitions_concat: "concat (partitions argsort lam d) = argsort lam"
  unfolding partitions_def Let_def by (rule np_split_histogram_concat) simp


lemma py_slice_subset:
  assumes "i \<in> set (py_slice xs p q)"
  shows "i \<in> set (drop p xs)" and "i \<in> set (take q xs)"
proof -
  show "i \<in> set (drop p xs)" using assms unfolding py_slice_def by (rule in_set_takeD)
  have "take (q - p) (drop p xs) = drop p (take q xs)" by (simp add: drop_take)
  then have "i \<in> set (drop p (take q xs))" using assms by (simp add: py_slice_def)
  then show "i \<in> set (take q xs)" by (rule in_set_dropD)
qed

lemma sorted_take_filter:
  "sorted (map f xs) \<Longrightarrow>
   take (length (filter (\<lambda>x. f x \<le> (m::nat)) xs)) xs = filter (\<lambda>x. f x \<le> m) xs"
proof (induction xs)
  case Nil
  then show ?case by simp
next
  case (Cons x xs)
  have s: "sorted (map f xs)" and ge: "\<forall>y\<in>set xs. f x \<le> f y" using Cons.prems by auto
  show ?case
  proof (cases "f x \<le> m")
    case True
    then show ?thesis using Cons.IH[OF s] by simp
  next
    case False
    then have "filter (\<lambda>x. f x \<le> m) xs = []" using ge by (auto simp: filter_empty_conv)
    then show ?thesis using False by simp
  qed
qed

lemma sorted_drop_filter:
  "sorted (map f xs) \<Longrightarrow>
   drop (length (filter (\<lambda>x. f x \<le> (m::nat)) xs)) xs = filter (\<lambda>x. \<not> f x \<le> m) xs"
proof (induction xs)
  case Nil
  then show ?case by simp
next
  case (Cons x xs)
  have s: "sorted (map f xs)" and ge: "\<forall>y\<in>set xs. f x \<le> f y" using Cons.prems by auto
  show ?case
  proof (cases "f x \<le> m")
    case True
    then show ?thesis using Cons.IH[OF s] by simp
  next
    case False
    then have e: "filter (\<lambda>x. f x \<le> m) xs = []" using ge by (auto simp: filter_empty_conv)
    have "filter (\<lambda>x. \<not> f x \<le> m) xs = xs" using False ge by (auto simp: filter_id_conv)
    then show ?thesis using False e by simp
  qed
qed

lemma count_keys_ge1:
  assumes "\<forall>x\<in>set xs. 1 \<le> f x"
  shows "length (filter (\<lambda>v. 1 \<le> v \<and> v \<le> (m::nat)) (map f xs)) = length (filter (\<lambda>x. f x \<le> m) xs)"
  using assms by (induction xs) auto

lemma group_upper:
  assumes srt: "sorted (map f xs)" and ge1: "\<forall>x\<in>set xs. 1 \<le> f x" and j: "j < d"
    and i: "i \<in> set (take (cumsum (histogram (map f xs) d) ! j) xs)"
  shows "f i \<le> bin_upper d j"
proof -
  have "cumsum (histogram (map f xs) d) ! j = length (filter (\<lambda>x. f x \<le> bin_upper d j) xs)"
    using cumsum_histogram_nth[OF j] count_keys_ge1[OF ge1] by simp
  then have "i \<in> set (filter (\<lambda>x. f x \<le> bin_upper d j) xs)"
    using i sorted_take_filter[OF srt, of "bin_upper d j"] by simp
  then show ?thesis by simp
qed

lemma group_lower:
  assumes srt: "sorted (map f xs)" and ge1: "\<forall>x\<in>set xs. 1 \<le> f x" and j: "j < d"
    and i: "i \<in> set (drop (cumsum (histogram (map f xs) d) ! j) xs)"
  shows "bin_upper d j < f i"
proof -
  have "cumsum (histogram (map f xs) d) ! j = length (filter (\<lambda>x. f x \<le> bin_upper d j) xs)"
    using cumsum_histogram_nth[OF j] count_keys_ge1[OF ge1] by simp
  then have "i \<in> set (filter (\<lambda>x. \<not> f x \<le> bin_upper d j) xs)"
    using i sorted_drop_filter[OF srt, of "bin_upper d j"] by simp
  then show ?thesis by simp
qed

lemma length_cumsum_histogram [simp]: "length (cumsum (histogram vals d)) = d"
  by simp

lemma length_partitions [simp]: "length (partitions argsort lam d) = d + 1"
  by (simp add: partitions_def Let_def np_split_def)

lemma partitions_nth:
  assumes "a \<le> d"
  shows "partitions argsort lam d ! a =
           py_slice (argsort lam)
             ((0 # cumsum (histogram (map (\<lambda>i. lam ! i) (argsort lam)) d) @ [length (argsort lam)]) ! a)
             ((0 # cumsum (histogram (map (\<lambda>i. lam ! i) (argsort lam)) d) @ [length (argsort lam)]) ! Suc a)"
  using assms unfolding partitions_def Let_def np_split_def
  by (intro sections_nth) simp

lemma partitions_group_value:
  assumes perm: "mset (argsort lam) = mset [0..<length lam]"
    and srt: "sorted (map (\<lambda>i. lam ! i) (argsort lam))"
    and rng: "\<forall>v\<in>set lam. 1 \<le> v \<and> v \<le> d"
    and a: "a < length (partitions argsort lam d)"
    and i: "i \<in> set (partitions argsort lam d ! a)"
  shows "lam ! i = a + 1"
proof -
  define xs where "xs = argsort lam"
  define f where "f = (\<lambda>i. lam ! i)"
  define cs where "cs = cumsum (histogram (map f xs) d)"
  have ad: "a \<le> d" using a by simp
  have sl: "partitions argsort lam d ! a
      = py_slice xs ((0 # cs @ [length xs]) ! a) ((0 # cs @ [length xs]) ! Suc a)"
    using partitions_nth[OF ad, of argsort lam] by (simp add: xs_def f_def cs_def)
  have lcs: "length cs = d" by (simp add: cs_def)
  have setxs: "set xs = {0..<length lam}"
    using perm by (metis mset_eq_setD set_upt xs_def)
  have ge1: "\<forall>x\<in>set xs. 1 \<le> f x" using rng setxs by (simp add: f_def)
  have srt': "sorted (map f xs)" using srt by (simp add: xs_def f_def)
  have ixs: "i \<in> set xs" using i sl py_slice_subset(1)[of i xs] by (auto dest: in_set_dropD)
  then have fi: "1 \<le> f i \<and> f i \<le> d" using rng setxs by (simp add: f_def)
  have up: "a < d \<Longrightarrow> f i \<le> bin_upper d a"
  proof -
    assume ad': "a < d"
    have "(0 # cs @ [length xs]) ! Suc a = cs ! a" using ad' lcs by (simp add: nth_append)
    then have "i \<in> set (take (cs ! a) xs)" using i sl py_slice_subset(2)[of i xs] by simp
    then show "f i \<le> bin_upper d a"
      unfolding cs_def by (rule group_upper[OF srt' ge1 ad'])
  qed
  have lo: "0 < a \<Longrightarrow> bin_upper d (a - 1) < f i"
  proof -
    assume a0: "0 < a"
    then have a1: "a - 1 < d" using ad by simp
    have "(0 # cs @ [length xs]) ! a = cs ! (a - 1)" using a0 a1 lcs by (cases a) (simp_all add: nth_append)
    then have "i \<in> set (drop (cs ! (a - 1)) xs)" using i sl py_slice_subset(1)[of i xs] by simp
    then show "bin_upper d (a - 1) < f i"
      unfolding cs_def by (rule group_lower[OF srt' ge1 a1])
  qed
  have "f i = a + 1"
  proof (cases "a = 0")
    case True
    show ?thesis
    proof (cases "d = 0")
      case True
      then show ?thesis using fi by simp
    next
      case False
      then have "f i \<le> bin_upper d 0" using up \<open>a = 0\<close> by simp
      then show ?thesis using fi \<open>a = 0\<close> by (auto simp: bin_upper_def split: if_splits)
    qed
  next
    case False
    then have l: "bin_upper d (a - 1) < f i" using lo by simp
    show ?thesis
    proof (cases "a < d")
      case True
      then have "f i \<le> bin_upper d a" by (rule up)
      then show ?thesis using l fi False True by (auto simp: bin_upper_def split: if_splits)
    next
      case False
      then have "a = d" using ad by simp
      then show ?thesis using l fi \<open>a \<noteq> 0\<close> by (auto simp: bin_upper_def split: if_splits)
    qed
  qed
  then show ?thesis by (simp add: f_def)
qed

lemma distinct_concat_disjoint:
  "distinct (concat xss) \<Longrightarrow> a < b \<Longrightarrow> b < length xss \<Longrightarrow> set (xss ! a) \<inter> set (xss ! b) = {}"
proof (induction xss arbitrary: a b)
  case Nil
  then show ?case by simp
next
  case (Cons xs xss)
  obtain b' where b: "b = Suc b'" using Cons.prems(2) by (cases b) auto
  show ?case
  proof (cases a)
    case 0
    have "xss ! b' \<in> set xss" using Cons.prems(3) b by simp
    then show ?thesis using Cons.prems(1) 0 b by auto
  next
    case (Suc a')
    then show ?thesis using Cons.IH[of a' b'] Cons.prems b by simp
  qed
qed

text \<open>
  Claim C7.  Whatever order \<open>np.argsort\<close> gives to equal keys, the groups that lines 134-136
  build are pairwise disjoint, their union is the index set \<open>{0..<n}\<close>, and read in the order
  the loop of line 140 takes them the correlation dimensions of their members ascend; when
  every correlation dimension lies in \<open>[1, d]\<close>, the members of group \<open>a\<close> (counted from 0)
  are indices of correlation dimension \<open>a + 1\<close>.
\<close>

theorem partitions_disjoint_cover_ascending:
  assumes perm: "mset (argsort lam) = mset [0..<length lam]"
    and srt: "sorted (map (\<lambda>i. lam ! i) (argsort lam))"
  shows "(\<forall>a b. a < b \<and> b < length (partitions argsort lam d) \<longrightarrow>
            set (partitions argsort lam d ! a) \<inter> set (partitions argsort lam d ! b) = {})
       \<and> distinct (concat (partitions argsort lam d))
       \<and> \<Union> (set ` set (partitions argsort lam d)) = {0..<length lam}
       \<and> sorted (map (\<lambda>i. lam ! i) (concat (partitions argsort lam d)))
       \<and> ((\<forall>v\<in>set lam. 1 \<le> v \<and> v \<le> d) \<longrightarrow>
            (\<forall>a<length (partitions argsort lam d). \<forall>i\<in>set (partitions argsort lam d ! a).
                lam ! i = a + 1))"
proof -
  have c: "concat (partitions argsort lam d) = argsort lam" by (rule partitions_concat)
  have d: "distinct (argsort lam)"
    using perm by (metis distinct_upt mset_eq_imp_distinct_iff)
  have s: "set (argsort lam) = {0..<length lam}"
    using perm by (metis mset_eq_setD set_upt)
  have dis: "distinct (concat (partitions argsort lam d))" using c d by simp
  have "\<Union> (set ` set (partitions argsort lam d)) = set (concat (partitions argsort lam d))"
    by simp
  then have cover: "\<Union> (set ` set (partitions argsort lam d)) = {0..<length lam}"
    using c s by simp
  have asc: "sorted (map (\<lambda>i. lam ! i) (concat (partitions argsort lam d)))"
    using c srt by simp
  have pair: "\<forall>a b. a < b \<and> b < length (partitions argsort lam d) \<longrightarrow>
            set (partitions argsort lam d ! a) \<inter> set (partitions argsort lam d ! b) = {}"
    using distinct_concat_disjoint[OF dis] by blast
  have grp: "(\<forall>v\<in>set lam. 1 \<le> v \<and> v \<le> d) \<longrightarrow>
            (\<forall>a<length (partitions argsort lam d). \<forall>i\<in>set (partitions argsort lam d ! a).
                lam ! i = a + 1)"
    using partitions_group_value[of argsort lam d, OF perm srt] by blast
  show ?thesis using pair dis cover asc grp by (intro conjI)
qed

lemma stable_argsort_perm: "mset (stable_argsort lam) = mset [0..<length lam]"
  by (simp add: stable_argsort_def)

lemma stable_argsort_sorted: "sorted (map (\<lambda>i. lam ! i) (stable_argsort lam))"
  by (simp add: stable_argsort_def)

theorem partitions_disjoint_cover_ascending_witness:
  "partitions stable_argsort [2, 1, 2, 1] 2 = [[1, 3], [0, 2], []]
   \<and> distinct (concat (partitions stable_argsort [2, 1, 2, 1] 2))
   \<and> \<Union> (set ` set (partitions stable_argsort [2, 1, 2, 1] 2)) = {0..<length [2, 1, 2, 1::nat]}
   \<and> sorted (map (\<lambda>i. [2, 1, 2, 1::nat] ! i) (concat (partitions stable_argsort [2, 1, 2, 1] 2)))"
proof -
  have v: "partitions stable_argsort [2, 1, 2, 1] 2 = [[1, 3], [0, 2], []]" by code_simp
  show ?thesis
    using partitions_disjoint_cover_ascending[of stable_argsort "[2, 1, 2, 1]" 2,
        OF stable_argsort_perm stable_argsort_sorted] v
    by blast
qed

section \<open>The correlation distance\<close>

lemma sum_list_upt: "(\<Sum>i\<leftarrow>[0..<n]. f i) = sum f {0..<n}"
  by (simp add: interv_sum_list_conv_sum_set_nat)


lemma square_mat_row: "square_mat d M \<Longrightarrow> a < d \<Longrightarrow> length (M ! a) = d"
  by (simp add: square_mat_def list_all_length)

lemma square_mat_length: "square_mat d M \<Longrightarrow> length M = d"
  by (simp add: square_mat_def)

lemma square_mat_ncols: "square_mat d M \<Longrightarrow> ncols M = d"
proof -
  assume h: "square_mat d M"
  show ?thesis
  proof (cases "M = []")
    case True
    then show ?thesis using h by (simp add: ncols_def square_mat_def)
  next
    case False
    then have "hd M = M ! 0" and "0 < d" using h by (auto simp: hd_conv_nth square_mat_def)
    then show ?thesis using False square_mat_row[OF h, of 0] by (simp add: ncols_def)
  qed
qed

lemma vec_mat_nth:
  assumes "square_mat d M" and "j < d"
  shows "vec_mat r M ! j = (\<Sum>k\<in>{0..<d}. r ! k * M ! k ! j)"
  using assms by (simp add: vec_mat_def square_mat_ncols square_mat_length sum_list_upt)

lemma length_vec_mat: "square_mat d M \<Longrightarrow> length (vec_mat r M) = d"
  by (simp add: vec_mat_def square_mat_ncols)






lemma length_np_diag [simp]: "length (np_diag e) = length e"
  by (simp add: np_diag_def)

lemma square_mat_np_diag: "square_mat (length e) (np_diag e)"
  by (simp add: square_mat_def np_diag_def list_all_length)

lemma np_diag_nth: "c < length e \<Longrightarrow> k < length e \<Longrightarrow> np_diag e ! c ! k = (if c = k then e ! c else 0)"
  by (simp add: np_diag_def)

lemma length_E_hat [simp]: "length (E_hat d lam) = d"
  by (simp add: E_hat_def)

lemma E_hat_nth: "k < d \<Longrightarrow> E_hat d lam ! k = (if lam < k + 1 then 1 else 0)"
  by (simp add: E_hat_def del: upt_Suc)

lemma mat_T_nth:
  assumes "square_mat d V" and "k < d" and "b < d"
  shows "mat_T V ! k ! b = V ! b ! k"
  using assms by (simp add: mat_T_def square_mat_ncols square_mat_length)

lemma square_mat_T: "square_mat d V \<Longrightarrow> square_mat d (mat_T V)"
  by (simp add: square_mat_def mat_T_def list_all_length square_mat_ncols)

lemma mat_mul_nth:
  assumes "square_mat d B" and "a < length A" and "b < d"
  shows "mat_mul A B ! a ! b = (\<Sum>k\<in>{0..<d}. A ! a ! k * B ! k ! b)"
  using assms by (simp add: mat_mul_def vec_mat_nth)

lemma square_mat_mul:
  assumes "length A = d" and "square_mat d B"
  shows "square_mat d (mat_mul A B)"
  using assms by (simp add: square_mat_def mat_mul_def list_all_length length_vec_mat)

lemma scaled_columns_nth:
  assumes V: "square_mat d V" and e: "length e = d" and a: "a < d" and k: "k < d"
  shows "mat_mul V (np_diag e) ! a ! k = V ! a ! k * e ! k"
proof -
  have sq: "square_mat d (np_diag e)" using square_mat_np_diag[of e] e by simp
  have "mat_mul V (np_diag e) ! a ! k = (\<Sum>c\<in>{0..<d}. V ! a ! c * np_diag e ! c ! k)"
    using sq a k V by (intro mat_mul_nth) (simp_all add: square_mat_length)
  also have "\<dots> = (\<Sum>c\<in>{0..<d}. if c = k then V ! a ! k * e ! k else 0)"
    using e k by (intro sum.cong refl) (simp add: np_diag_nth)
  also have "\<dots> = V ! a ! k * e ! k" using k by simp
  finally show ?thesis .
qed

lemma M_hat_P_nth:
  assumes V: "square_mat d V" and a: "a < d" and b: "b < d"
  shows "M_hat_P d lam V ! a ! b = (\<Sum>k\<in>{0..<d}. V ! a ! k * E_hat d lam ! k * V ! b ! k)"
proof -
  have lenV: "length V = d" using V by (rule square_mat_length)
  have len1: "length (mat_mul V (np_diag (E_hat d lam))) = d" using lenV by (simp add: mat_mul_def)
  have "M_hat_P d lam V ! a ! b
      = (\<Sum>k\<in>{0..<d}. mat_mul V (np_diag (E_hat d lam)) ! a ! k * mat_T V ! k ! b)"
    unfolding M_hat_P_def using square_mat_T[OF V] a b len1 by (intro mat_mul_nth) simp_all
  also have "\<dots> = (\<Sum>k\<in>{0..<d}. V ! a ! k * E_hat d lam ! k * V ! b ! k)"
    using a b by (intro sum.cong refl) (simp add: scaled_columns_nth[OF V] mat_T_nth[OF V])
  finally show ?thesis .
qed

lemma square_mat_M_hat_P:
  assumes "square_mat d V"
  shows "square_mat d (M_hat_P d lam V)"
  unfolding M_hat_P_def
  using assms by (intro square_mat_mul square_mat_T) (simp add: mat_mul_def square_mat_length)




lemma py_slice_nth_map: "b \<le> length D \<Longrightarrow> py_slice D a b = map (\<lambda>j. D ! j) [a..<b]"
  by (rule nth_equalityI) (auto simp: py_slice_def)

lemma cdist_row:
  "cdist (X ! (D ! i)) (map (\<lambda>t. X ! t) (map (\<lambda>j. D ! j) js)) (M_hat ! (D ! i))
     = map (\<lambda>j. cdist_pair X M_hat D i j) js"
  by (simp add: cdist_def cdist_pair_def Let_def comp_def)

lemma length_cdist [simp]: "length (cdist P Qs M) = length Qs"
  by (simp add: cdist_def)

lemma row_offset_closed:
  "i \<le> n \<Longrightarrow> 2 * (\<Sum>r\<leftarrow>[0..<i]. n - Suc r) + i * (i + 1) = 2 * n * i"
proof (induction i)
  case 0
  then show ?case by simp
next
  case (Suc i)
  then have ih: "2 * (\<Sum>r\<leftarrow>[0..<i]. n - Suc r) + i * (i + 1) = 2 * n * i" and lt: "i < n" by simp_all
  have "2 * (\<Sum>r\<leftarrow>[0..<Suc i]. n - Suc r) + Suc i * (Suc i + 1)
      = (2 * (\<Sum>r\<leftarrow>[0..<i]. n - Suc r) + i * (i + 1)) + 2 * (n - Suc i) + 2 * (i + 1)"
    by (simp add: algebra_simps)
  also have "\<dots> = 2 * n * i + 2 * (n - Suc i) + 2 * (i + 1)" using ih by simp
  also have "\<dots> = 2 * n * Suc i" using lt by (simp add: algebra_simps)
  finally show ?case .
qed

lemma row_offset_condensed:
  assumes "i \<le> n"
  shows "(\<Sum>r\<leftarrow>[0..<i]. n - Suc r) = n * i - i * (i + 1) div 2"
proof -
  have "even (i * (i + 1))" by simp
  then have "\<exists>t. i * (i + 1) = 2 * t" by (rule evenE) blast
  then obtain t where t: "i * (i + 1) = 2 * t" ..
  have "2 * (\<Sum>r\<leftarrow>[0..<i]. n - Suc r) + 2 * t = 2 * (n * i)"
    using row_offset_closed[OF assms] t by (simp add: mult.assoc)
  then have "(\<Sum>r\<leftarrow>[0..<i]. n - Suc r) + t = n * i" by simp
  then have "(\<Sum>r\<leftarrow>[0..<i]. n - Suc r) = n * i - t" by simp
  moreover have "i * (i + 1) div 2 = t" using t by simp
  ultimately show ?thesis by simp
qed

lemma row_offset_total: "(\<Sum>r\<leftarrow>[0..<n]. n - Suc r) = n * (n - 1) div 2"
proof -
  have "2 * (\<Sum>r\<leftarrow>[0..<n]. n - Suc r) + n * (n + 1) = 2 * n * n"
    by (rule row_offset_closed) simp
  moreover have "n * (n - 1) + n * (n + 1) = 2 * n * n"
    by (cases n) (simp_all add: algebra_simps)
  ultimately have "2 * (\<Sum>r\<leftarrow>[0..<n]. n - Suc r) = n * (n - 1)" by simp
  then show ?thesis by simp
qed

lemma length_triu_rows:
  "length (concat (map (\<lambda>i. map (f i) [i + 1..<n]) [0..<m])) = (\<Sum>r\<leftarrow>[0..<m]. n - Suc r)"
  by (simp add: length_concat comp_def)

lemma length_triu_indices: "length (triu_indices n) = n * (n - 1) div 2"
  unfolding triu_indices_def length_triu_rows by (rule row_offset_total)

lemma triu_indices_mem: "(i, j) \<in> set (triu_indices n) \<longleftrightarrow> i < j \<and> j < n"
proof
  assume "(i, j) \<in> set (triu_indices n)"
  then show "i < j \<and> j < n" by (auto simp: triu_indices_def)
next
  assume h: "i < j \<and> j < n"
  then have "i \<in> {0..<n}" and "(i, j) \<in> Pair i ` {Suc i..<n}" by auto
  then show "(i, j) \<in> set (triu_indices n)" by (auto simp: triu_indices_def)
qed

lemma concat_nth_offset:
  "i < length xss \<Longrightarrow> k < length (xss ! i) \<Longrightarrow>
   concat xss ! (length (concat (take i xss)) + k) = xss ! i ! k"
proof (induction xss arbitrary: i)
  case Nil
  then show ?case by simp
next
  case (Cons xs xss)
  show ?case
  proof (cases i)
    case 0
    then show ?thesis using Cons.prems by (simp add: nth_append)
  next
    case (Suc i')
    then show ?thesis using Cons.prems Cons.IH[of i'] by (simp add: nth_append add.assoc)
  qed
qed

lemma triu_indices_nth:
  assumes "i < j" and "j < n"
  shows "triu_indices n ! condensed_index n i j = (i, j)"
proof -
  define xss where "xss = map (\<lambda>i. map (\<lambda>j. (i, j)) [i + 1..<n]) [0..<n]"
  have i: "i < length xss" using assms by (simp add: xss_def)
  have row: "xss ! i = map (\<lambda>j. (i, j)) [i + 1..<n]" using assms by (simp add: xss_def)
  have k: "j - i - 1 < length (xss ! i)" using assms by (simp add: row)
  have "take i xss = map (\<lambda>i. map (\<lambda>j. (i, j)) [i + 1..<n]) [0..<i]"
    using assms by (simp add: xss_def take_map take_upt)
  then have "length (concat (take i xss)) = (\<Sum>r\<leftarrow>[0..<i]. n - Suc r)"
    by (simp only: length_triu_rows)
  also have "\<dots> = n * i - i * (i + 1) div 2" using assms by (intro row_offset_condensed) simp
  finally have off: "length (concat (take i xss)) + (j - i - 1) = condensed_index n i j"
    by (simp add: condensed_index_def)
  have "concat xss ! (length (concat (take i xss)) + (j - i - 1)) = xss ! i ! (j - i - 1)"
    using i k by (rule concat_nth_offset)
  also have "\<dots> = (i, j)" using assms by (simp add: row)
  finally show ?thesis unfolding off by (simp add: triu_indices_def xss_def)
qed

lemma cdist_P_fold:
  assumes "i \<le> length D - 1"
  shows "fold (cdist_P_step X M_hat D) [0..<i] (0, replicate T (- 1))
         = (length (concat (map (\<lambda>i. map (\<lambda>j. cdist_pair X M_hat D i j) [i + 1..<length D]) [0..<i])),
            concat (map (\<lambda>i. map (\<lambda>j. cdist_pair X M_hat D i j) [i + 1..<length D]) [0..<i])
              @ replicate (T - length (concat (map (\<lambda>i. map (\<lambda>j. cdist_pair X M_hat D i j) [i + 1..<length D]) [0..<i]))) (- 1))"
  using assms
proof (induction i)
  case 0
  then show ?case by simp
next
  case (Suc i)
  define n where "n = length D"
  define A where "A = concat (map (\<lambda>i. map (\<lambda>j. cdist_pair X M_hat D i j) [i + 1..<n]) [0..<i])"
  define row where "row = map (\<lambda>j. cdist_pair X M_hat D i j) [i + 1..<n]"
  have lt: "i < n - 1" using Suc.prems by (simp add: n_def)
  have ih: "fold (cdist_P_step X M_hat D) [0..<i] (0, replicate T (- 1))
              = (length A, A @ replicate (T - length A) (- 1))"
    using Suc.IH lt by (simp add: n_def A_def)
  have sl: "py_slice D (i + 1) n = map (\<lambda>j. D ! j) [i + 1..<n]"
    by (rule py_slice_nth_map) (simp add: n_def)
  have rowc: "cdist (X ! (D ! i)) (map (\<lambda>t. X ! t) (py_slice D (i + 1) n)) (M_hat ! (D ! i)) = row"
    unfolding row_def sl by (rule cdist_row)
  have lrow: "length row = n - i - 1" by (simp add: row_def)
  have stop: "length A + n - i - 1 = length A + length row" using lt by (simp add: lrow)
  have sa: "slice_assign (A @ replicate (T - length A) (- 1)) (length A) (length A + length row) row
          = (A @ row) @ replicate (T - length (A @ row)) (- 1)"
    by (simp add: slice_assign_def)
  have step: "cdist_P_step X M_hat D i (length A, A @ replicate (T - length A) (- 1))
          = (length A + length row, (A @ row) @ replicate (T - length (A @ row)) (- 1))"
    unfolding cdist_P_step_def Let_def fst_conv snd_conv n_def[symmetric] rowc stop sa ..
  have next_A: "concat (map (\<lambda>i. map (\<lambda>j. cdist_pair X M_hat D i j) [i + 1..<n]) [0..<Suc i]) = A @ row"
    by (simp add: A_def row_def)
  have "fold (cdist_P_step X M_hat D) [0..<Suc i] (0, replicate T (- 1))
        = (length A + length row, (A @ row) @ replicate (T - length (A @ row)) (- 1))"
    using ih step by simp
  then show ?case unfolding next_A[unfolded n_def] n_def by simp
qed

lemma cdist_P_loop_eq:
  "cdist_P_loop X M_hat D
     = map (\<lambda>(i, j). cdist_pair X M_hat D i j) (triu_indices (length D))"
proof -
  define n where "n = length D"
  define rows where "rows = (\<lambda>m. concat (map (\<lambda>i. map (\<lambda>j. cdist_pair X M_hat D i j) [i + 1..<n]) [0..<m]))"
  have last_row: "rows n = rows (n - 1)"
  proof (cases n)
    case 0
    then show ?thesis by simp
  next
    case (Suc m)
    then show ?thesis by (simp add: rows_def)
  qed
  have len: "length (rows n) = n * (n - 1) div 2"
    unfolding rows_def length_triu_rows by (rule row_offset_total)
  have "fold (cdist_P_step X M_hat D) [0..<n - 1] (0, replicate (n * (n - 1) div 2) (- 1))
      = (length (rows (n - 1)), rows (n - 1) @ replicate (n * (n - 1) div 2 - length (rows (n - 1))) (- 1))"
    unfolding rows_def n_def by (rule cdist_P_fold) simp
  then have "cdist_P_loop X M_hat D
      = rows (n - 1) @ replicate (n * (n - 1) div 2 - length (rows (n - 1))) (- 1)"
    by (simp add: cdist_P_loop_def Let_def n_def)
  then have "cdist_P_loop X M_hat D = rows n" using last_row len by simp
  also have "rows n = map (\<lambda>(i, j). cdist_pair X M_hat D i j) (triu_indices n)"
    by (simp add: rows_def triu_indices_def map_concat comp_def)
  finally show ?thesis by (simp add: n_def)
qed

lemma list_update_map_upt:
  "i < n \<Longrightarrow> (map g [0..<n])[i := y] = map (\<lambda>r. if r = i then y else g r) [0..<n]"
  by (rule nth_equalityI) (auto simp: nth_list_update)

lemma cdist_Q_fold:
  assumes "1 \<le> i" and "i \<le> length D"
  shows "fold (cdist_Q_step X M_hat D) [1..<i] (replicate (length D) (replicate (length D) (- 1)))
         = map (\<lambda>r. if 1 \<le> r \<and> r < i
                     then map (\<lambda>c. cdist_pair X M_hat D r c) [0..<r] @ replicate (length D - r) (- 1)
                     else replicate (length D) (- 1)) [0..<length D]"
  using assms
proof (induction i)
  case 0
  then show ?case by simp
next
  case (Suc i)
  define n where "n = length D"
  define g where "g = (\<lambda>i r. if 1 \<le> r \<and> r < i
                     then map (\<lambda>c. cdist_pair X M_hat D r c) [0..<r] @ replicate (n - r) (- 1::real)
                     else replicate n (- 1))"
  show ?case
  proof (cases "i = 0")
    case True
    have "replicate n (replicate n (- 1::real)) = map (g (Suc 0)) [0..<n]"
      by (rule nth_equalityI) (simp_all add: g_def)
    then show ?thesis using True by (simp add: n_def g_def)
  next
    case False
    then have i1: "1 \<le> i" and il: "i < n" using Suc.prems by (simp_all add: n_def)
    have ih: "fold (cdist_Q_step X M_hat D) [1..<i] (replicate n (replicate n (- 1))) = map (g i) [0..<n]"
      using Suc.IH i1 il by (simp add: n_def g_def)
    have sl: "py_slice D 0 i = map (\<lambda>j. D ! j) [0..<i]"
      using il by (intro py_slice_nth_map) (simp add: n_def)
    have rowc: "cdist (X ! (D ! i)) (map (\<lambda>t. X ! t) (py_slice D 0 i)) (M_hat ! (D ! i))
                  = map (\<lambda>c. cdist_pair X M_hat D i c) [0..<i]"
      unfolding sl by (rule cdist_row)
    have old: "map (g i) [0..<n] ! i = replicate n (- 1)" using il by (simp add: g_def)
    have sa: "slice_assign (replicate n (- 1)) 0 i (map (\<lambda>c. cdist_pair X M_hat D i c) [0..<i])
            = g (Suc i) i"
      using i1 by (simp add: slice_assign_def g_def)
    have step: "cdist_Q_step X M_hat D i (map (g i) [0..<n]) = (map (g i) [0..<n])[i := g (Suc i) i]"
      unfolding cdist_Q_step_def Let_def rowc old sa ..
    also have "\<dots> = map (\<lambda>r. if r = i then g (Suc i) i else g i r) [0..<n]"
      using il by (rule list_update_map_upt)
    also have "\<dots> = map (g (Suc i)) [0..<n]"
      by (intro map_cong refl) (auto simp: g_def)
    finally have "cdist_Q_step X M_hat D i (map (g i) [0..<n]) = map (g (Suc i)) [0..<n]" .
    moreover have "[1..<Suc i] = [1..<i] @ [i]" using i1 by simp
    ultimately have "fold (cdist_Q_step X M_hat D) [1..<Suc i] (replicate n (replicate n (- 1)))
        = map (g (Suc i)) [0..<n]"
      using ih by simp
    then show ?thesis by (simp add: n_def g_def)
  qed
qed

lemma cdist_Q_loop_nth:
  assumes "i < j" and "j < length D"
  shows "cdist_Q_loop X M_hat D ! j ! i = cdist_pair X M_hat D j i"
proof -
  have "1 \<le> length D" using assms by simp
  then have "cdist_Q_loop X M_hat D
      = map (\<lambda>r. if 1 \<le> r \<and> r < length D
                     then map (\<lambda>c. cdist_pair X M_hat D r c) [0..<r] @ replicate (length D - r) (- 1)
                     else replicate (length D) (- 1)) [0..<length D]"
    unfolding cdist_Q_loop_def Let_def by (intro cdist_Q_fold) simp_all
  then show ?thesis using assms by (simp add: nth_append)
qed

lemma cdist_Q_flat_eq:
  "map (\<lambda>(i, j). cdist_Q_loop X M_hat D ! j ! i) (triu_indices (length D))
     = map (\<lambda>(i, j). cdist_pair X M_hat D j i) (triu_indices (length D))"
  by (intro map_cong refl) (auto simp: triu_indices_mem cdist_Q_loop_nth)

lemma cdist_max_eq:
  "map np_sqrt (map2 max (cdist_P_loop X M_hat D)
                      (map (\<lambda>(i, j). cdist_Q_loop X M_hat D ! j ! i) (triu_indices (length D))))
     = map (\<lambda>(i, j). np_sqrt (max (cdist_pair X M_hat D i j) (cdist_pair X M_hat D j i)))
         (triu_indices (length D))"
  unfolding cdist_P_loop_eq cdist_Q_flat_eq
  by (rule nth_equalityI) (simp_all add: case_prod_beta)

lemma twice_half_pairs: "2 * (n * (n - 1) div 2) = n * (n - (1::nat))"
proof -
  have "even (n * (n - 1))" by (cases n) simp_all
  then show ?thesis by simp
qed

lemma pairs_strict_mono:
  assumes "j < n" and "2 \<le> n"
  shows "j * (j - 1) < n * (n - (1::nat))"
proof (cases j)
  case 0
  obtain m where "n = Suc (Suc m)" using assms(2) by (metis add_2_eq_Suc le_Suc_ex)
  then show ?thesis using 0 by simp
next
  case (Suc k)
  then obtain m where n: "n = Suc (Suc k) + m" using assms(1) by (metis Suc_leI le_Suc_ex)
  have "Suc k * k < Suc (Suc k) * Suc k" by simp
  also have "\<dots> \<le> (Suc (Suc k) + m) * (Suc k + m)" by (intro mult_le_mono) simp_all
  finally show ?thesis using Suc n by simp
qed

lemma offset_bound:
  "A + (n - Suc a) \<le> T \<Longrightarrow> a < b \<Longrightarrow> b < n \<Longrightarrow> A + (b - a - 1) < (T::nat)"
  by linarith

lemma find_square_dim:
  assumes "2 \<le> n"
  shows "find (\<lambda>m. m * (m - 1) = 2 * (n * (n - 1) div 2)) [0..<2 * (n * (n - 1) div 2) + 2] = Some n"
proof -
  have lt: "n < n * (n - 1) + 2"
  proof -
    obtain m where "n = Suc (Suc m)" using assms by (metis add_2_eq_Suc le_Suc_ex)
    then show ?thesis by simp
  qed
  have "\<exists>i<length [0..<n * (n - 1) + 2].
          [0..<n * (n - 1) + 2] ! i * ([0..<n * (n - 1) + 2] ! i - 1) = n * (n - 1)
          \<and> n = [0..<n * (n - 1) + 2] ! i
          \<and> (\<forall>j<i. \<not> [0..<n * (n - 1) + 2] ! j * ([0..<n * (n - 1) + 2] ! j - 1) = n * (n - 1))"
  proof (intro exI[of _ n] conjI allI impI)
    show "n < length [0..<n * (n - 1) + 2]" using lt by simp
    show "[0..<n * (n - 1) + 2] ! n * ([0..<n * (n - 1) + 2] ! n - 1) = n * (n - 1)"
      using lt by (simp del: upt_Suc)
    show "n = [0..<n * (n - 1) + 2] ! n" using lt by (simp del: upt_Suc)
  next
    fix j assume j: "j < n"
    then have "j < n * (n - 1) + 2" using lt by simp
    then have "[0..<n * (n - 1) + 2] ! j = j" by (simp del: upt_Suc)
    moreover have "j * (j - 1) \<noteq> n * (n - 1)" using pairs_strict_mono[OF j assms] by simp
    ultimately show "\<not> [0..<n * (n - 1) + 2] ! j * ([0..<n * (n - 1) + 2] ! j - 1) = n * (n - 1)"
      by simp
  qed
  then show ?thesis unfolding twice_half_pairs find_Some_iff .
qed

lemma squareform_triu:
  assumes "length v = n * (n - 1) div 2" and "2 \<le> n"
  shows "squareform v = Inr (symmetric_fill n (\<lambda>i j. v ! condensed_index n i j))"
proof -
  have "1 * 1 \<le> n * (n - 1) div 2"
  proof -
    have "2 * 1 \<le> n * (n - 1)" using assms(2) by (intro mult_le_mono) simp_all
    then have "2 * 1 \<le> 2 * (n * (n - 1) div 2)" by (simp only: twice_half_pairs)
    then show ?thesis by simp
  qed
  then have ne: "v \<noteq> []" using assms(1) by auto
  show ?thesis
    unfolding squareform_def assms(1) find_square_dim[OF assms(2)] symmetric_fill_def
    using ne by simp
qed

lemma squareform_empty: "squareform [] = Inr [[Fin 0]]"
  by (simp add: squareform_def)

lemma partition_dist_large:
  assumes "2 \<le> length D"
  shows "partition_dist X M_hat D
           = Inr (symmetric_fill (length D)
                    (\<lambda>i j. np_sqrt (max (cdist_pair X M_hat D i j) (cdist_pair X M_hat D j i))))"
proof -
  define n where "n = length D"
  define v where "v = map (\<lambda>(i, j). np_sqrt (max (cdist_pair X M_hat D i j) (cdist_pair X M_hat D j i)))
                        (triu_indices n)"
  have lv: "length v = n * (n - 1) div 2" by (simp add: v_def length_triu_indices)
  have pd: "partition_dist X M_hat D = squareform v"
    unfolding partition_dist_def Let_def cdist_max_eq v_def n_def ..
  have "symmetric_fill n (\<lambda>i j. v ! condensed_index n i j)
      = symmetric_fill n (\<lambda>i j. np_sqrt (max (cdist_pair X M_hat D i j) (cdist_pair X M_hat D j i)))"
    unfolding symmetric_fill_def
  proof (intro map_cong refl)
    fix i j assume "i \<in> set [0..<n]" and "j \<in> set [0..<n]"
    then have i: "i < n" and j: "j < n" by simp_all
    have nth: "\<And>a b. a < b \<Longrightarrow> b < n \<Longrightarrow>
        v ! condensed_index n a b = np_sqrt (max (cdist_pair X M_hat D a b) (cdist_pair X M_hat D b a))"
    proof -
      fix a b assume ab: "a < b" and b: "b < n"
      have "condensed_index n a b < length (triu_indices n)"
      proof -
          have "(\<Sum>r\<leftarrow>[0..<Suc a]. n - Suc r) \<le> (\<Sum>r\<leftarrow>[0..<n]. n - Suc r)"
          proof -
            have "[0..<n] = [0..<Suc a] @ [Suc a..<n]"
              using ab b by (metis Suc_leI le0 less_trans upt_add_eq_append le_add_diff_inverse)
            then show ?thesis by (metis le_add1 map_append sum_list_append)
          qed
          moreover have "(\<Sum>r\<leftarrow>[0..<Suc a]. n - Suc r) = (\<Sum>r\<leftarrow>[0..<a]. n - Suc r) + (n - Suc a)"
            by simp
          moreover have "(\<Sum>r\<leftarrow>[0..<a]. n - Suc r) = n * a - a * (a + 1) div 2"
            using ab b by (intro row_offset_condensed) simp
          ultimately have "n * a - a * (a + 1) div 2 + (n - Suc a) \<le> n * (n - 1) div 2"
            by (simp add: row_offset_total)
          then have "n * a - a * (a + 1) div 2 + (b - a - 1) < n * (n - 1) div 2"
            using ab b by (rule offset_bound)
          then show ?thesis by (simp only: condensed_index_def length_triu_indices)
      qed
      then show "v ! condensed_index n a b
          = np_sqrt (max (cdist_pair X M_hat D a b) (cdist_pair X M_hat D b a))"
        using triu_indices_nth[OF ab b] by (simp add: v_def)
    qed
    show "(if i = j then Fin 0 else if i < j then v ! condensed_index n i j else v ! condensed_index n j i)
        = (if i = j then Fin 0
           else if i < j then np_sqrt (max (cdist_pair X M_hat D i j) (cdist_pair X M_hat D j i))
           else np_sqrt (max (cdist_pair X M_hat D j i) (cdist_pair X M_hat D i j)))"
      using nth[of i j] nth[of j i] i j by auto
  qed
  then show ?thesis
    using squareform_triu[OF lv] assms pd by (simp add: n_def)
qed

lemma partition_dist_small:
  assumes "length D \<le> 1"
  shows "partition_dist X M_hat D = Inr [[Fin 0]]"
proof -
  have "length D * (length D - 1) div 2 = 0" using assms by (cases D) simp_all
  then have "triu_indices (length D) = []"
    using length_triu_indices[of "length D"] by simp
  then show ?thesis
    unfolding partition_dist_def Let_def cdist_max_eq by (simp add: squareform_empty)
qed

lemma symmetric_fill_nth:
  "i < n \<Longrightarrow> j < n \<Longrightarrow>
   symmetric_fill n w ! i ! j = (if i = j then Fin 0 else if i < j then w i j else w j i)"
  by (simp add: symmetric_fill_def)

lemma length_symmetric_fill [simp]: "length (symmetric_fill n w) = n"
  by (simp add: symmetric_fill_def)








section \<open>The matrix handed to the density clustering\<close>

text \<open>
  Whatever the matrices \<open>M_hat\<close> are, \<open>squareform\<close> makes the matrix handed to the density
  clustering symmetric (the two entries of a pair are the same value, not-a-number
  included) with a zero diagonal.
\<close>

lemma partition_dist_symmetric_zero_diag:
  "\<exists>cd. partition_dist X M_hat D = Inr cd \<and> length cd = max 1 (length D)
        \<and> (\<forall>i<length D. \<forall>j<length D. cd ! i ! j = cd ! j ! i \<and> cd ! i ! i = Fin 0)"
proof (cases "2 \<le> length D")
  case True
  define w where "w = (\<lambda>i j. np_sqrt (max (cdist_pair X M_hat D i j) (cdist_pair X M_hat D j i)))"
  have pd: "partition_dist X M_hat D = Inr (symmetric_fill (length D) w)"
    unfolding w_def using True by (rule partition_dist_large)
  have "\<forall>i<length D. \<forall>j<length D.
          symmetric_fill (length D) w ! i ! j = symmetric_fill (length D) w ! j ! i
          \<and> symmetric_fill (length D) w ! i ! i = Fin 0"
    by (auto simp: symmetric_fill_nth)
  moreover have "length (symmetric_fill (length D) w) = max 1 (length D)" using True by simp
  ultimately show ?thesis using pd by blast
next
  case False
  then have pd: "partition_dist X M_hat D = Inr [[Fin 0]]" by (intro partition_dist_small) simp
  have "\<forall>i<length D. \<forall>j<length D. [[Fin 0]] ! i ! j = [[Fin 0]] ! j ! i \<and> [[Fin 0]] ! i ! i = Fin 0"
  proof (intro allI impI)
    fix i j assume "i < length D" and "j < length D"
    with False have "i = 0" and "j = 0" by simp_all
    then show "[[Fin 0]] ! i ! j = [[Fin 0]] ! j ! i \<and> [[Fin 0]] ! i ! i = Fin 0" by simp
  qed
  moreover have "length [[Fin (0::real)]] = max 1 (length D)" using False by simp
  ultimately show ?thesis using pd by blast
qed

lemma ex_round_pairs:
  "cdist_pair ex_round_X [M0, ex_round_M, ex_round_M, M3] [0, 1, 2, 3] 1 2 = - (1 / 4503599627370496)"
  "cdist_pair ex_round_X [M0, ex_round_M, ex_round_M, M3] [0, 1, 2, 3] 2 1 = - (1 / 4503599627370496)"
proof -
  have a: "sum_list (map2 (*) (vec_mat (map2 (-) [- 1, - 6] [3, 6]) ex_round_M) (map2 (-) [- 1, - 6] [3, 6]))
         = - (1 / 4503599627370496)" by code_simp
  have b: "sum_list (map2 (*) (vec_mat (map2 (-) [3, 6] [- 1, - 6]) ex_round_M) (map2 (-) [3, 6] [- 1, - 6]))
         = - (1 / 4503599627370496)" by code_simp
  show "cdist_pair ex_round_X [M0, ex_round_M, ex_round_M, M3] [0, 1, 2, 3] 1 2 = - (1 / 4503599627370496)"
    unfolding cdist_pair_def ex_round_X_def using a by simp
  show "cdist_pair ex_round_X [M0, ex_round_M, ex_round_M, M3] [0, 1, 2, 3] 2 1 = - (1 / 4503599627370496)"
    unfolding cdist_pair_def ex_round_X_def using b by simp
qed

lemma ex_round_forms:
  "cdist [- 1, - 6] [[3, 6]] ex_round_M = [- (1 / 4503599627370496)]"
  "cdist [3, 6] [[- 1, - 6]] ex_round_M = [- (1 / 4503599627370496)]"
  by code_simp+

text \<open>
  Claim C4 at the four points \<open>ex_round_X\<close> with \<open>k = 2\<close>, where all points form one
  partition.  The difference \<open>(4, 12)\<close> of the points 1 and 2 is orthogonal to \<open>v\<close>, so
  both quadratic forms are 0 in exact arithmetic.  With the matrix as it is stored in
  double precision, \<open>_cdist\<close> returns a negative number in both directions (about
  \<open>-2.2e-16\<close> when the products and sums of line 35 are exact, \<open>-8.9e-16\<close> when they
  are rounded as well), the maximum of line 163 is negative and its root is
  not-a-number: the matrix handed to the density clustering has the entry not-a-number
  at \<open>(1, 2)\<close> and \<open>(2, 1)\<close>, whatever the matrices of the points 0 and 3 are.  It is
  neither finite nor \<open>\<ge> 0\<close> there, and the density clustering rejects it.  The other two
  parts of the claim hold (lemma \<open>partition_dist_symmetric_zero_diag\<close>), and so does
  the third in exact arithmetic, where the root is taken of a non-negative number.
\<close>

theorem distance_entry_not_a_number:
  "cdist [- 1, - 6] [[3, 6]] ex_round_M = [- (1 / 4503599627370496)]
   \<and> cdist [3, 6] [[- 1, - 6]] ex_round_M = [- (1 / 4503599627370496)]
   \<and> (\<exists>cd. partition_dist ex_round_X [M0, ex_round_M, ex_round_M, M3] [0, 1, 2, 3] = Inr cd
          \<and> cd ! 1 ! 2 = NaN \<and> cd ! 2 ! 1 = NaN)"
proof -
  define D :: "nat list" where "D = [0, 1, 2, 3]"
  define Ms where "Ms = [M0, ex_round_M, ex_round_M, M3]"
  define w where "w = (\<lambda>i j. np_sqrt (max (cdist_pair ex_round_X Ms D i j)
                                           (cdist_pair ex_round_X Ms D j i)))"
  have len: "length D = 4" by (simp add: D_def)
  have pd: "partition_dist ex_round_X Ms D = Inr (symmetric_fill (length D) w)"
    unfolding w_def by (rule partition_dist_large) (simp add: len)
  have w12: "w 1 2 = NaN"
    unfolding w_def D_def Ms_def ex_round_pairs by (simp add: np_sqrt_def)
  have "symmetric_fill (length D) w ! 1 ! 2 = w 1 2"
    and "symmetric_fill (length D) w ! 2 ! 1 = w 1 2"
    by (simp_all add: symmetric_fill_nth len)
  then have "symmetric_fill (length D) w ! 1 ! 2 = NaN"
    and "symmetric_fill (length D) w ! 2 ! 1 = NaN"
    using w12 by simp_all
  then show ?thesis using pd ex_round_forms unfolding D_def Ms_def by blast
qed

section \<open>Merging the partitions\<close>

lemma fold_update_length:
  "length (fold (\<lambda>(i, x) acc. acc[i := x]) ps ys) = length ys"
  by (induction ps arbitrary: ys) auto

lemma fold_const_update_length:
  "length (fold (\<lambda>i acc. acc[i := c]) D ys) = length ys"
  by (induction D arbitrary: ys) auto

lemma fancy_assign_length:
  "fancy_assign ys D v = Inr ys' \<Longrightarrow> length ys' = length ys"
  by (auto simp: fancy_assign_def fold_update_length fold_const_update_length split: if_splits)

lemma fold_const_update_nth:
  "i < length ys \<Longrightarrow>
   fold (\<lambda>i acc. acc[i := c]) D ys ! i = (if i \<in> set D then c else ys ! i)"
proof (induction D arbitrary: ys)
  case Nil
  then show ?case by simp
next
  case (Cons a D)
  then show ?case by (auto simp: nth_list_update)
qed

lemma fold_zip_True_nth:
  "i < length ys \<Longrightarrow>
   fold (\<lambda>(i, x) acc. acc[i := x]) (zip D (replicate (length D) True)) ys ! i
     = (i \<in> set D \<or> ys ! i)"
proof (induction D arbitrary: ys)
  case Nil
  then show ?case by simp
next
  case (Cons a D)
  have up: "ys[a := True] ! i = (a = i \<or> ys ! i)"
    using Cons.prems by (cases "a = i") simp_all
  have "i < length (ys[a := True])" using Cons.prems by simp
  from Cons.IH[OF this] up show ?case by auto
qed

lemma fancy_assign_True_nth:
  assumes "fancy_assign u D [True] = Inr u'" and "i < length u"
  shows "u' ! i = (i \<in> set D \<or> u ! i)"
proof (cases "length D = 1")
  case True
  then have "[True] = replicate (length D) True" by simp
  then have "u' = fold (\<lambda>(i, x) acc. acc[i := x]) (zip D (replicate (length D) True)) u"
    using assms(1) True by (auto simp: fancy_assign_def split: if_splits)
  then show ?thesis using assms(2) by (simp only: fold_zip_True_nth)
next
  case False
  then have "u' = fold (\<lambda>i acc. acc[i := True]) D u"
    using assms(1) by (auto simp: fancy_assign_def split: if_splits)
  then show ?thesis using assms(2) by (simp add: fold_const_update_nth)
qed

lemma fold_zip_update_other:
  "i \<notin> set D \<Longrightarrow> fold (\<lambda>(i, x) acc. acc[i := x]) (zip D v) ys ! i = ys ! i"
proof (induction D arbitrary: v ys)
  case Nil
  then show ?case by simp
next
  case (Cons a D)
  show ?case
  proof (cases v)
    case Nil
    then show ?thesis by simp
  next
    case (Cons x v')
    have "i \<notin> set D" and "a \<noteq> i" using Cons.prems by auto
    then show ?thesis using Cons.IH[of v' "ys[a := x]"] Cons by simp
  qed
qed

lemma fold_zip_update_nth:
  assumes "distinct D" and "length v = length D" and "\<forall>i\<in>set D. i < length ys"
    and "t < length D"
  shows "fold (\<lambda>(i, x) acc. acc[i := x]) (zip D v) ys ! (D ! t) = v ! t"
  using assms
proof (induction D arbitrary: v ys t)
  case Nil
  then show ?case by simp
next
  case (Cons a D)
  obtain x v' where v: "v = x # v'" using Cons.prems(2) by (cases v) auto
  have d: "distinct D" and na: "a \<notin> set D" using Cons.prems(1) by simp_all
  have lv: "length v' = length D" using Cons.prems(2) v by simp
  have bound: "\<forall>i\<in>set D. i < length (ys[a := x])" using Cons.prems(3) by simp
  show ?case
  proof (cases t)
    case 0
    have "fold (\<lambda>(i, x) acc. acc[i := x]) (zip D v') (ys[a := x]) ! a = ys[a := x] ! a"
      using na by (rule fold_zip_update_other)
    also have "\<dots> = x" using Cons.prems(3) by simp
    finally show ?thesis using 0 v by simp
  next
    case (Suc t')
    then have "t' < length D" using Cons.prems(4) by simp
    from Cons.IH[OF d lv bound this] show ?thesis using Suc v by simp
  qed
qed

lemma fancy_assign_ok:
  assumes "\<forall>i\<in>set D. i < length ys" and "length v = length D \<or> length v = 1"
  shows "\<exists>ys'. fancy_assign ys D v = Inr ys'"
  using assms by (auto simp: fancy_assign_def)

lemma partition_dist_cases:
  "partition_dist X M_hat D
     = Inr (if 2 \<le> length D
            then symmetric_fill (length D)
                   (\<lambda>i j. np_sqrt (max (cdist_pair X M_hat D i j) (cdist_pair X M_hat D j i)))
            else [[Fin 0]])"
  using partition_dist_large[of D X M_hat] partition_dist_small[of D X M_hat] by auto

lemma partition_dist_total:
  "\<exists>cd. partition_dist X M_hat D = Inr cd \<and> length cd = max 1 (length D)"
  unfolding partition_dist_cases by auto

lemma partition_step_unfold:
  "partition_step X M_hat dbscan D st =
     (case partition_dist X M_hat D of
        Inl e \<Rightarrow> Inl e
      | Inr cd \<Rightarrow>
          (let labels = dbscan cd;
               y_D = map (\<lambda>l. l + max_label st) labels;
               new_labels = int (length (remdups (filter (\<lambda>l. 0 \<le> l) labels)))
           in case fancy_assign (y_arr st) D y_D of
                Inl e \<Rightarrow> Inl e
              | Inr y' \<Rightarrow>
                  (case fancy_assign (used_y st) D [True] of
                     Inl e \<Rightarrow> Inl e
                   | Inr u' \<Rightarrow>
                       Inr \<lparr>max_label = max_label st + new_labels, y_arr = y', used_y = u'\<rparr>)))"
  by (simp add: partition_step_def partition_body_def Let_def split: sum.splits)

lemma merge_loop_Nil [simp]: "merge_loop X M_hat dbscan [] st = Inr st"
  by (simp add: merge_loop_def)

lemma merge_loop_Cons [simp]:
  "merge_loop X M_hat dbscan (D # Ds) st =
     (case partition_step X M_hat dbscan D st of
        Inl e \<Rightarrow> Inl e
      | Inr st' \<Rightarrow> merge_loop X M_hat dbscan Ds st')"
  by (simp add: merge_loop_def partition_step_def split: sum.splits)

lemma partition_body_used:
  assumes "partition_body X M_hat clust D st = Inr st'"
  shows "length (used_y st') = length (used_y st)
       \<and> length (y_arr st') = length (y_arr st)
       \<and> (\<forall>i<length (used_y st). used_y st' ! i = (i \<in> set D \<or> used_y st ! i))"
proof -
  obtain labels y' u' where y': "fancy_assign (y_arr st) D (map (\<lambda>l. l + max_label st) labels) = Inr y'"
    and u': "fancy_assign (used_y st) D [True] = Inr u'"
    and st': "y_arr st' = y'" "used_y st' = u'"
    using assms by (auto simp: partition_body_def Let_def split: sum.splits)
  show ?thesis
    using fancy_assign_length[OF y'] fancy_assign_length[OF u'] fancy_assign_True_nth[OF u'] st'
    by simp
qed

lemma partition_step_used:
  assumes "partition_step X M_hat dbscan D st = Inr st'"
  shows "length (used_y st') = length (used_y st)
       \<and> length (y_arr st') = length (y_arr st)
       \<and> (\<forall>i<length (used_y st). used_y st' ! i = (i \<in> set D \<or> used_y st ! i))"
  using assms unfolding partition_step_def by (rule partition_body_used)

lemma partition_loop_used:
  assumes "partition_loop X M_hat clust Ds st = Inr st'"
  shows "length (used_y st') = length (used_y st)
       \<and> length (y_arr st') = length (y_arr st)
       \<and> (\<forall>i<length (used_y st). used_y st' ! i = (i \<in> set (concat Ds) \<or> used_y st ! i))"
  using assms
proof (induction Ds arbitrary: st)
  case Nil
  then show ?case by simp
next
  case (Cons D Ds)
  obtain st1 where s1: "partition_body X M_hat clust D st = Inr st1"
    and rest: "partition_loop X M_hat clust Ds st1 = Inr st'"
    using Cons.prems by (auto split: sum.splits)
  note a = partition_body_used[OF s1]
  note b = Cons.IH[OF rest]
  show ?case
  proof (intro conjI allI impI)
    show "length (used_y st') = length (used_y st)" using a b by simp
    show "length (y_arr st') = length (y_arr st)" using a b by simp
  next
    fix i assume i: "i < length (used_y st)"
    then have "used_y st' ! i = (i \<in> set (concat Ds) \<or> used_y st1 ! i)" using a b by simp
    also have "used_y st1 ! i = (i \<in> set D \<or> used_y st ! i)" using a i by simp
    finally show "used_y st' ! i = (i \<in> set (concat (D # Ds)) \<or> used_y st ! i)" by auto
  qed
qed

lemma merge_loop_used:
  assumes "merge_loop X M_hat dbscan Ds st = Inr st'"
  shows "length (used_y st') = length (used_y st)
       \<and> length (y_arr st') = length (y_arr st)
       \<and> (\<forall>i<length (used_y st). used_y st' ! i = (i \<in> set (concat Ds) \<or> used_y st ! i))"
  using assms unfolding merge_loop_def by (rule partition_loop_used)

lemma partition_step_ok:
  assumes "\<forall>i\<in>set D. i < length (y_arr st)" and "length (used_y st) = length (y_arr st)"
    and "\<forall>cd. length (dbscan cd) = length cd"
  shows "\<exists>st'. partition_step X M_hat dbscan D st = Inr st'"
proof -
  obtain cd where cd: "partition_dist X M_hat D = Inr cd" and l: "length cd = max 1 (length D)"
    using partition_dist_total by blast
  have "length (map (\<lambda>l. l + max_label st) (dbscan cd)) = length D
      \<or> length (map (\<lambda>l. l + max_label st) (dbscan cd)) = 1"
    using assms(3) l by (auto simp: max_def)
  then obtain y' where y': "fancy_assign (y_arr st) D (map (\<lambda>l. l + max_label st) (dbscan cd)) = Inr y'"
    using fancy_assign_ok[OF assms(1)] by blast
  have "\<forall>i\<in>set D. i < length (used_y st)" using assms(1,2) by simp
  then obtain u' where u': "fancy_assign (used_y st) D [True] = Inr u'"
    using fancy_assign_ok[of D "used_y st" "[True]"] by auto
  show ?thesis by (simp add: partition_step_unfold cd y' u' Let_def)
qed

lemma merge_loop_ok:
  assumes "\<forall>D\<in>set Ds. \<forall>i\<in>set D. i < length (y_arr st)"
    and "length (used_y st) = length (y_arr st)"
    and "\<forall>cd. length (dbscan cd) = length cd"
  shows "\<exists>st'. merge_loop X M_hat dbscan Ds st = Inr st'"
  using assms(1,2)
proof (induction Ds arbitrary: st)
  case Nil
  then show ?case by simp
next
  case (Cons D Ds)
  have "\<forall>i\<in>set D. i < length (y_arr st)" using Cons.prems(1) by simp
  then obtain st1 where s1: "partition_step X M_hat dbscan D st = Inr st1"
    using partition_step_ok[OF _ Cons.prems(2) assms(3)] by blast
  note l = partition_step_used[OF s1]
  have "\<forall>D\<in>set Ds. \<forall>i\<in>set D. i < length (y_arr st1)" using Cons.prems(1) l by simp
  moreover have "length (used_y st1) = length (y_arr st1)" using Cons.prems(2) l by simp
  ultimately obtain st' where "merge_loop X M_hat dbscan Ds st1 = Inr st'"
    using Cons.IH by blast
  then show ?case using s1 by simp
qed

lemma length_lambda_all [simp]: "length (lambda_all alpha nbhd_eigh n) = n"
  by (simp add: lambda_all_def)

lemma copac_state_used:
  assumes perm: "mset (argsort (lambda_all alpha nbhd_eigh (length X)))
                   = mset [0..<length (lambda_all alpha nbhd_eigh (length X))]"
    and st: "copac_state X alpha nbhd_eigh argsort dbscan = Inr st"
  shows "used_y st = replicate (length X) True \<and> length (y_arr st) = length X"
proof -
  define lam where "lam = lambda_all alpha nbhd_eigh (length X)"
  define Ds where "Ds = partitions argsort lam (ncols X)"
  have cover: "set (concat Ds) = {0..<length X}"
    using perm unfolding Ds_def partitions_concat lam_def
    by (metis length_lambda_all mset_eq_setD set_upt)
  have ml: "merge_loop X (M_hat_all alpha nbhd_eigh (length X) (ncols X)) dbscan Ds
        \<lparr>max_label = 0, y_arr = replicate (length X) (- 1), used_y = replicate (length X) False\<rparr> = Inr st"
    using st by (simp add: copac_state_def Let_def Ds_def lam_def)
  note u = merge_loop_used[OF ml]
  have len: "length (used_y st) = length X" and leny: "length (y_arr st) = length X"
    using u by simp_all
  have "\<forall>i<length X. used_y st ! i = True"
    using u cover by (simp del: set_concat)
  then have "used_y st = replicate (length X) True"
    using len by (intro nth_equalityI) simp_all
  then show ?thesis using leny by simp
qed

lemma copac_state_ok:
  assumes perm: "mset (argsort (lambda_all alpha nbhd_eigh (length X)))
                   = mset [0..<length (lambda_all alpha nbhd_eigh (length X))]"
    and db: "\<forall>cd. length (dbscan cd) = length cd"
  shows "\<exists>st. copac_state X alpha nbhd_eigh argsort dbscan = Inr st"
proof -
  define lam where "lam = lambda_all alpha nbhd_eigh (length X)"
  define Ds where "Ds = partitions argsort lam (ncols X)"
  have cover: "set (concat Ds) = {0..<length X}"
    using perm unfolding Ds_def partitions_concat lam_def
    by (metis length_lambda_all mset_eq_setD set_upt)
  have "\<forall>D\<in>set Ds. \<forall>i\<in>set D. i < length X"
  proof (intro ballI)
    fix D i assume "D \<in> set Ds" and "i \<in> set D"
    then have "i \<in> set (concat Ds)" by auto
    then show "i < length X" using cover by (simp del: set_concat)
  qed
  then have "\<exists>st'. merge_loop X (M_hat_all alpha nbhd_eigh (length X) (ncols X)) dbscan Ds
        \<lparr>max_label = 0, y_arr = replicate (length X) (- 1), used_y = replicate (length X) False\<rparr> = Inr st'"
    using db by (intro merge_loop_ok) simp_all
  then show ?thesis by (simp add: copac_state_def Let_def Ds_def lam_def)
qed

lemma copac_no_assertion:
  assumes "mset (argsort (lambda_all alpha nbhd_eigh (length X)))
             = mset [0..<length (lambda_all alpha nbhd_eigh (length X))]"
  shows "copac X alpha nbhd_eigh argsort dbscan \<noteq> Inl AssertionError"
proof (cases "check_array X")
  case (Inl e)
  then have "e = ValueError" by (auto simp: check_array_def split: if_splits)
  then show ?thesis using Inl by (simp add: copac_def)
next
  case (Inr X')
  then have X': "X' = X" by (auto simp: check_array_def split: if_splits)
  show ?thesis
  proof (cases "copac_state X alpha nbhd_eigh argsort dbscan")
    case (Inl e)
    have "e \<noteq> AssertionError"
    proof -
      have ne: "\<And>Ds st. merge_loop X (M_hat_all alpha nbhd_eigh (length X) (ncols X)) dbscan Ds st
                  \<noteq> Inl AssertionError"
      proof -
        fix Ds st
        show "merge_loop X (M_hat_all alpha nbhd_eigh (length X) (ncols X)) dbscan Ds st
                  \<noteq> Inl AssertionError"
        proof (induction Ds arbitrary: st)
          case Nil
          then show ?case by simp
        next
          case (Cons D Ds)
          have "partition_step X (M_hat_all alpha nbhd_eigh (length X) (ncols X)) dbscan D st
                  \<noteq> Inl AssertionError"
            by (auto simp: partition_step_unfold partition_dist_cases Let_def fancy_assign_def
                split: sum.splits if_splits)
          then show ?case using Cons.IH by (auto split: sum.splits)
        qed
      qed
      show ?thesis using Inl ne by (auto simp: copac_state_def Let_def)
    qed
    then show ?thesis using Inl \<open>check_array X = Inr X'\<close> X' by (simp add: copac_def)
  next
    case (Inr st)
    have "used_y st = replicate (length X) True"
      using copac_state_used[OF assms Inr] by simp
    then have "list_all (\<lambda>b. b) (used_y st)" by (simp add: list_all_length)
    then show ?thesis using Inr \<open>check_array X = Inr X'\<close> X' by (simp add: copac_def)
  qed
qed

lemma copac_returns_labels:
  assumes perm: "mset (argsort (lambda_all alpha nbhd_eigh (length X)))
                   = mset [0..<length (lambda_all alpha nbhd_eigh (length X))]"
    and db: "\<forall>cd. length (dbscan cd) = length cd"
    and X: "check_array X = Inr X"
  shows "\<exists>y. copac X alpha nbhd_eigh argsort dbscan = Inr y \<and> length y = length X"
proof -
  have "\<exists>st. copac_state X alpha nbhd_eigh argsort dbscan = Inr st"
    using perm db by (rule copac_state_ok)
  then obtain st where st: "copac_state X alpha nbhd_eigh argsort dbscan = Inr st" ..
  note u = copac_state_used[OF perm st]
  have "list_all (\<lambda>b. b) (used_y st)" using u by (simp add: list_all_length)
  then have "copac X alpha nbhd_eigh argsort dbscan = Inr (y_arr st)"
    using X st by (simp add: copac_def)
  then show ?thesis using u by simp
qed

section \<open>The whole call\<close>

lemma searchsorted_left_zero:
  assumes "\<forall>i j. i \<le> j \<and> j < length a \<and> np_less (a ! j) v \<longrightarrow> np_less (a ! i) v"
    and "a \<noteq> [] \<longrightarrow> \<not> np_less (a ! 0) v"
  shows "searchsorted_left a v = 0"
proof (rule ccontr)
  assume "searchsorted_left a v \<noteq> 0"
  then have pos: "0 < searchsorted_left a v" by simp
  note spec = searchsorted_left_spec[OF assms(1)]
  have "np_less (a ! 0) v" using spec pos by blast
  moreover have "a \<noteq> []" using spec pos by auto
  ultimately show False using assms(2) by simp
qed

lemma searchsorted_left_all:
  assumes "\<forall>i j. i \<le> j \<and> j < length a \<and> np_less (a ! j) v \<longrightarrow> np_less (a ! i) v"
    and "\<forall>i<length a. np_less (a ! i) v"
  shows "searchsorted_left a v = length a"
proof (rule ccontr)
  assume ne: "searchsorted_left a v \<noteq> length a"
  note spec = searchsorted_left_spec[OF assms(1)]
  have lt: "searchsorted_left a v < length a" using spec ne by simp
  then have "\<not> np_less (a ! searchsorted_left a v) v" using spec by blast
  then show False using assms(2) lt by blast
qed

lemma lambda_P_alpha_nonpos:
  assumes "\<forall>e\<in>set E. 0 \<le> e" and "alpha \<le> 0"
  shows "lambda_P alpha E = 1"
proof -
  have "E \<noteq> [] \<longrightarrow> \<not> np_less (explanation_portion E ! 0) alpha"
  proof
    assume "E \<noteq> []"
    then have i: "0 < length E" by simp
    have c: "0 \<le> sum_list (take (Suc 0) (rev (sort E)))"
      using sorted_desc_nonneg[OF assms(1)] by (rule prefix_sum_nonneg)
    have s: "0 \<le> sum_list E" using assms(1) by (intro sum_list_nonneg) simp
    show "\<not> np_less (explanation_portion E ! 0) alpha"
    proof (cases "sum_list E = 0")
      case True
      then show ?thesis using c i by (simp add: explanation_portion_nth np_divide_def np_less_def)
    next
      case False
      then have "0 \<le> sum_list (take (Suc 0) (rev (sort E))) / sum_list E"
        using c s by simp
      then have "\<not> sum_list (take (Suc 0) (rev (sort E))) / sum_list E < alpha"
        using assms(2) by linarith
      then show ?thesis using False i
        by (simp add: explanation_portion_nth np_divide_def np_less_def)
    qed
  qed
  moreover have "(explanation_portion E \<noteq> []) = (E \<noteq> [])"
    using length_explanation_portion[of E] by (metis length_0_conv)
  ultimately have z: "explanation_portion E \<noteq> [] \<longrightarrow> \<not> np_less (explanation_portion E ! 0) alpha"
    by simp
  have "searchsorted_left (explanation_portion E) alpha = 0"
    using explanation_portion_downward[OF assms(1)] z by (rule searchsorted_left_zero)
  then show ?thesis by (simp add: lambda_P_def)
qed

lemma lambda_P_alpha_above_one:
  assumes "\<forall>e\<in>set E. 0 \<le> e" and "0 < sum_list E" and "1 < alpha"
  shows "lambda_P alpha E = length E + 1"
proof -
  have nz: "sum_list E \<noteq> 0" using assms(2) by simp
  have ne: "E \<noteq> []" using assms(2) by auto
  have "\<forall>i<length (explanation_portion E). np_less (explanation_portion E ! i) alpha"
  proof (intro allI impI)
    fix i assume "i < length (explanation_portion E)"
    then have i: "i < length E" by simp
    then have "i \<le> length E - 1" by simp
    then have "explained_variance_ratio E i \<le> explained_variance_ratio E (length E - 1)"
      using assms(1) by (intro explained_variance_ratio_mono)
    then have "explained_variance_ratio E i \<le> 1"
      using explained_variance_ratio_last[OF nz ne] by simp
    then have "explained_variance_ratio E i < alpha" using assms(3) by linarith
    then show "np_less (explanation_portion E ! i) alpha"
      using i nz by (simp add: explanation_portion_pos np_less_def)
  qed
  with explanation_portion_downward[OF assms(1)]
  have "searchsorted_left (explanation_portion E) alpha = length (explanation_portion E)"
    by (rule searchsorted_left_all)
  then show ?thesis by (simp add: lambda_P_def)
qed

lemma partitions_all_ones:
  assumes perm: "mset (argsort (replicate n 1)) = mset [0..<n]" and d: "1 \<le> d"
  shows "partitions argsort (replicate n 1) d = argsort (replicate n 1) # replicate d []"
proof -
  define lam :: "nat list" where "lam = replicate n 1"
  define Ds where "Ds = partitions argsort lam d"
  have ll: "length lam = n" by (simp add: lam_def)
  have perm': "mset (argsort lam) = mset [0..<length lam]" using perm by (simp add: lam_def)
  have mem: "set (argsort lam) = {0..<n}"
    using perm' ll by (metis mset_eq_setD set_upt)
  have key: "\<And>i. i \<in> set (argsort lam) \<Longrightarrow> lam ! i = 1"
    using mem by (simp add: lam_def)
  have "map (\<lambda>i. lam ! i) (argsort lam) = replicate (length (argsort lam)) 1"
    using key by (intro nth_equalityI) simp_all
  then have srt: "sorted (map (\<lambda>i. lam ! i) (argsort lam))" by (simp add: sorted_replicate)
  have rng: "\<forall>v\<in>set lam. 1 \<le> v \<and> v \<le> d" using d by (auto simp: lam_def)
  have len: "length Ds = d + 1" by (simp add: Ds_def)
  have cc: "concat Ds = argsort lam" unfolding Ds_def by (rule partitions_concat)
  have empty: "\<And>a. 0 < a \<Longrightarrow> a < length Ds \<Longrightarrow> Ds ! a = []"
  proof (rule ccontr)
    fix a assume a: "0 < a" "a < length Ds" and ne: "Ds ! a \<noteq> []"
    then obtain i where i: "i \<in> set (Ds ! a)" by (cases "Ds ! a") auto
    have "lam ! i = a + 1"
      using partitions_group_value[of argsort lam d a i, OF perm' srt rng] a(2) i by (simp add: Ds_def)
    moreover have "i \<in> set (concat Ds)" using i a(2) by (auto intro: nth_mem)
    then have "lam ! i = 1" using key cc by simp
    ultimately show False using a(1) by simp
  qed
  obtain D0 rest where Ds: "Ds = D0 # rest" using len by (cases Ds) simp_all
  have lr: "length rest = d" using len Ds by simp
  have "\<forall>r\<in>set rest. r = []"
  proof
    fix r assume "r \<in> set rest"
    then obtain b where b: "b < length rest" and r: "r = rest ! b" by (auto simp: in_set_conv_nth)
    have "Ds ! Suc b = []" using b Ds by (intro empty) simp_all
    then show "r = []" using r Ds by simp
  qed
  then have "replicate (length rest) [] = rest" by (rule replicate_length_same)
  then have rest: "rest = replicate d []" using lr by simp
  have cr: "concat rest = []" unfolding rest by simp
  have "concat Ds = D0 @ concat rest" using Ds by simp
  then have "concat Ds = D0" unfolding cr by simp
  then have "D0 = argsort lam" using cc by simp
  then show ?thesis using Ds rest unfolding Ds_def lam_def by simp
qed

lemma partition_body_unfold:
  assumes "partition_dist X M_hat D = Inr cd" and "clust cd = Inr labels"
  shows "partition_body X M_hat clust D st =
     (case fancy_assign (y_arr st) D (map (\<lambda>l. l + max_label st) labels) of
        Inl e \<Rightarrow> Inl e
      | Inr y' \<Rightarrow>
          (case fancy_assign (used_y st) D [True] of
             Inl e \<Rightarrow> Inl e
           | Inr u' \<Rightarrow>
               Inr \<lparr>max_label = max_label st + int (length (remdups (filter (\<lambda>l. 0 \<le> l) labels))),
                    y_arr = y', used_y = u'\<rparr>))"
  using assms by (simp add: partition_body_def Let_def)

lemma partition_body_answer:
  assumes cd: "partition_dist X M_hat D = Inr cd" and lab: "clust cd = Inr labels"
    and len: "length labels = length cd"
    and idx: "\<forall>i\<in>set D. i < length (y_arr st)"
    and lu: "length (used_y st) = length (y_arr st)"
  shows "\<exists>st'. partition_body X M_hat clust D st = Inr st'"
proof -
  have l: "length cd = max 1 (length D)" using partition_dist_total[of X M_hat D] cd by auto
  have "length (map (\<lambda>l. l + max_label st) labels) = length D
      \<or> length (map (\<lambda>l. l + max_label st) labels) = 1"
    using len l by (auto simp: max_def)
  then obtain y' where y': "fancy_assign (y_arr st) D (map (\<lambda>l. l + max_label st) labels) = Inr y'"
    using fancy_assign_ok[OF idx] by blast
  have "\<forall>i\<in>set D. i < length (used_y st)" using idx lu by simp
  then obtain u' where u': "fancy_assign (used_y st) D [True] = Inr u'"
    using fancy_assign_ok[of D "used_y st" "[True]"] by auto
  show ?thesis by (simp add: partition_body_unfold[of X M_hat D cd clust labels, OF cd lab] y' u')
qed

lemma partition_body_error:
  assumes err: "partition_body X M_hat clust D st = Inl e"
    and idx: "\<forall>i\<in>set D. i < length (y_arr st)"
    and lu: "length (used_y st) = length (y_arr st)"
    and contract: "\<forall>cd labels. clust cd = Inr labels \<longrightarrow> length labels = length cd"
  shows "\<exists>cd. partition_dist X M_hat D = Inr cd \<and> clust cd = Inl e"
proof -
  obtain cd where cd: "partition_dist X M_hat D = Inr cd"
    using partition_dist_total by blast
  show ?thesis
  proof (cases "clust cd")
    case (Inl e')
    then have "partition_body X M_hat clust D st = Inl e'"
      using cd by (simp add: partition_body_def)
    with err have "e = e'" by simp
    then show ?thesis using cd Inl by blast
  next
    case (Inr labels)
    have "length labels = length cd" using contract Inr by blast
    with cd Inr have "\<exists>st'. partition_body X M_hat clust D st = Inr st'"
      using idx lu by (rule partition_body_answer)
    with err show ?thesis by simp
  qed
qed

lemma partition_loop_error:
  assumes "partition_loop X M_hat clust Ds st = Inl e"
    and "\<forall>D\<in>set Ds. \<forall>i\<in>set D. i < length (y_arr st)"
    and "length (used_y st) = length (y_arr st)"
    and contract: "\<forall>cd labels. clust cd = Inr labels \<longrightarrow> length labels = length cd"
  shows "\<exists>D cd. D \<in> set Ds \<and> partition_dist X M_hat D = Inr cd \<and> clust cd = Inl e"
  using assms(1,2,3)
proof (induction Ds arbitrary: st)
  case Nil
  then show ?case by simp
next
  case (Cons D Ds)
  have idx: "\<forall>i\<in>set D. i < length (y_arr st)" using Cons.prems(2) by simp
  show ?case
  proof (cases "partition_body X M_hat clust D st")
    case (Inl e')
    then have "e = e'" using Cons.prems(1) by simp
    then have "\<exists>cd. partition_dist X M_hat D = Inr cd \<and> clust cd = Inl e"
      using partition_body_error[OF _ idx Cons.prems(3) contract] Inl by blast
    then show ?thesis by auto
  next
    case (Inr st1)
    then have rest: "partition_loop X M_hat clust Ds st1 = Inl e" using Cons.prems(1) by simp
    note l = partition_body_used[OF Inr]
    have a: "\<forall>D\<in>set Ds. \<forall>i\<in>set D. i < length (y_arr st1)" using Cons.prems(2) l by simp
    have b: "length (used_y st1) = length (y_arr st1)" using Cons.prems(3) l by simp
    from Cons.IH[OF rest a b] show ?thesis by auto
  qed
qed

lemma partition_body_labels:
  assumes step: "partition_body X M_hat clust D st = Inr st'"
    and cd: "partition_dist X M_hat D = Inr cd"
    and lab: "clust cd = Inr labels"
    and len: "length labels = length D"
    and dist: "distinct D" and t: "t < length D"
  shows "y_arr st' ! (D ! t) = labels ! t + max_label st"
proof -
  define y_D where "y_D = map (\<lambda>l. l + max_label st) labels"
  obtain y' where y': "fancy_assign (y_arr st) D y_D = Inr y'" and st': "y_arr st' = y'"
    using step unfolding partition_body_unfold[of X M_hat D cd clust labels, OF cd lab] y_D_def
    by (auto split: sum.splits)
  have ly: "length y_D = length D" using len by (simp add: y_D_def)
  have ok: "\<forall>i\<in>set D. i < length (y_arr st)"
    using y' by (auto simp: fancy_assign_def split: if_splits)
  have "y' = fold (\<lambda>(i, x) acc. acc[i := x]) (zip D y_D) (y_arr st)"
    using y' ly by (auto simp: fancy_assign_def split: if_splits)
  then have "y' ! (D ! t) = y_D ! t"
    using fold_zip_update_nth[OF dist ly ok t] by simp
  then show ?thesis using st' t len by (simp add: y_D_def)
qed

lemma partition_body_empty:
  assumes "clust [[Fin 0]] = Inr [l0]"
  shows "\<exists>st'. partition_body X M_hat clust [] st = Inr st'
             \<and> y_arr st' = y_arr st \<and> used_y st' = used_y st"
proof -
  have cd: "partition_dist X M_hat [] = Inr [[Fin 0]]" by (rule partition_dist_small) simp
  show ?thesis
    unfolding partition_body_unfold[of X M_hat "[]" "[[Fin 0]]" clust "[l0]", OF cd assms]
    by (simp add: fancy_assign_def)
qed

lemma partition_loop_empties:
  assumes "clust [[Fin 0]] = Inr [l0]"
  shows "\<exists>st'. partition_loop X M_hat clust (replicate j []) st = Inr st'
             \<and> y_arr st' = y_arr st \<and> used_y st' = used_y st"
proof (induction j arbitrary: st)
  case 0
  then show ?case by simp
next
  case (Suc j)
  obtain st1 where s1: "partition_body X M_hat clust [] st = Inr st1"
    and k1: "y_arr st1 = y_arr st" "used_y st1 = used_y st"
    using partition_body_empty[where clust = clust, OF assms] by blast
  obtain st' where "partition_loop X M_hat clust (replicate j []) st1 = Inr st'"
    and "y_arr st' = y_arr st1" "used_y st' = used_y st1"
    using Suc.IH by blast
  then show ?case using s1 k1 by simp
qed

lemma copac_call_unfold:
  assumes "check_array X = Inr X" and "neighbourhood_eighs X k kneighbors eigh = Inr EVs"
  shows "copac_call X k mu eps alpha kneighbors eigh argsort dbscan =
     (case partition_loop X (M_hat_all alpha (\<lambda>P. EVs ! P) (length X) (ncols X))
             (\<lambda>cd. dbscan cd eps mu)
             (partitions argsort (lambda_all alpha (\<lambda>P. EVs ! P) (length X)) (ncols X))
             \<lparr>max_label = 0, y_arr = replicate (length X) (- 1),
               used_y = replicate (length X) False\<rparr> of
        Inl e \<Rightarrow> Inl e
      | Inr st \<Rightarrow> if list_all (\<lambda>b. b) (used_y st) then Inr (y_arr st) else Inl AssertionError)"
  by (simp add: copac_call_def assms Let_def)

text \<open>When the checks of lines 97-120 pass and the density clustering answers, the whole
  call is \<open>copac\<close> from the answers.\<close>

lemma copac_call_eq_copac:
  assumes "check_array X = Inr X" and "neighbourhood_eighs X k kneighbors eigh = Inr EVs"
    and "\<forall>cd. dbscan cd eps mu = Inr (db cd)"
  shows "copac_call X k mu eps alpha kneighbors eigh argsort dbscan
           = copac X alpha (\<lambda>P. EVs ! P) argsort db"
proof -
  have "(\<lambda>cd. dbscan cd eps mu) = (\<lambda>cd. Inr (db cd))" using assms(3) by auto
  then show ?thesis
    unfolding copac_call_unfold[OF assms(1,2)]
    by (simp add: copac_def copac_state_def merge_loop_def assms(1) Let_def)
qed

lemma copac_call_bad_array:
  assumes "X = [] \<or> ncols X = 0"
  shows "copac_call X k mu eps alpha kneighbors eigh argsort dbscan = Inl ValueError"
proof -
  have "check_array X = Inl ValueError" using assms by (auto simp: check_array_def)
  then show ?thesis by (simp add: copac_call_def)
qed

lemma copac_call_bad_k:
  assumes "check_array X = Inr X" and "k < 1"
  shows "copac_call X k mu eps alpha kneighbors eigh argsort dbscan = Inl ValueError"
  using assms by (simp add: copac_call_def neighbourhood_eighs_def)

text \<open>A feature array of one column, and a neighbourhood size \<open>k = 1\<close>, are rejected at
  line 120 for the first point.\<close>

lemma copac_call_single_variable:
  assumes X: "check_array X = Inr X" and k: "1 \<le> k" and kn: "kneighbors X k = Inr knns"
    and idx: "\<forall>i\<in>set (knns 0). i < length X"
    and one: "(ncols X = 1 \<and> knns 0 \<noteq> []) \<or> length (knns 0) = 1"
  shows "copac_call X k mu eps alpha kneighbors eigh argsort dbscan = Inl ValueError"
proof -
  have ne: "X \<noteq> []" and rect: "\<forall>r\<in>set X. length r = ncols X"
    using X by (auto simp: check_array_def split: if_splits)
  have upt: "[0..<length X] = 0 # [1..<length X]" using ne by (simp add: upt_conv_Cons)
  define N_P where "N_P = map (\<lambda>i. X ! i) (knns 0)"
  have tr: "take_rows X (knns 0) = Inr N_P" using idx by (auto simp: take_rows_def N_P_def)
  have "length N_P = 1 \<or> ncols N_P = 1"
  proof (cases "length (knns 0) = 1")
    case True
    then show ?thesis by (simp add: N_P_def)
  next
    case False
    then have c: "ncols X = 1" and n0: "knns 0 \<noteq> []" using one by simp_all
    have "hd (knns 0) \<in> set (knns 0)" using n0 by simp
    then have "hd (knns 0) < length X" using idx by blast
    then have "X ! hd (knns 0) \<in> set X" by simp
    then have "length (X ! hd (knns 0)) = 1" using rect c by simp
    then have "ncols N_P = 1" using n0 by (simp add: ncols_def N_P_def hd_map)
    then show ?thesis by simp
  qed
  then have "cov_eigh eigh N_P = Inl ValueError" by (simp add: cov_eigh_def)
  then have "analyse X eigh knns [0..<length X] = Inl ValueError"
    unfolding upt by (simp add: tr)
  then have "neighbourhood_eighs X k kneighbors eigh = Inl ValueError"
    using k kn by (simp add: neighbourhood_eighs_def)
  then show ?thesis using X by (simp add: copac_call_def)
qed

lemma copac_call_nonpos_alpha:
  assumes X: "check_array X = Inr X"
    and an: "neighbourhood_eighs X k kneighbors eigh = Inr EVs"
    and alpha: "alpha \<le> 0"
    and nonneg: "\<forall>P<length X. \<forall>e\<in>set (fst (EVs ! P)). 0 \<le> e"
    and perm: "mset (argsort (replicate (length X) 1)) = mset [0..<length X]"
    and cd: "partition_dist X (M_hat_all alpha (\<lambda>P. EVs ! P) (length X) (ncols X))
               (argsort (replicate (length X) 1)) = Inr cd"
    and lab: "dbscan cd eps mu = Inr labels" and len: "length labels = length X"
    and ph: "dbscan [[Fin 0]] eps mu = Inr [l0]"
  shows "lambda_all alpha (\<lambda>P. EVs ! P) (length X) = replicate (length X) 1
       \<and> partitions argsort (lambda_all alpha (\<lambda>P. EVs ! P) (length X)) (ncols X)
           = argsort (replicate (length X) 1) # replicate (ncols X) []
       \<and> (\<exists>y. copac_call X k mu eps alpha kneighbors eigh argsort dbscan = Inr y
              \<and> length y = length X
              \<and> (\<forall>t<length X. y ! (argsort (replicate (length X) 1) ! t) = labels ! t))"
proof -
  define n where "n = length X"
  define d where "d = ncols X"
  define D where "D = argsort (replicate n 1)"
  define M where "M = M_hat_all alpha (\<lambda>P. EVs ! P) n d"
  define clust where "clust = (\<lambda>cd. dbscan cd eps mu)"
  define st0 where "st0 = \<lparr>max_label = 0, y_arr = replicate n (- 1), used_y = replicate n False\<rparr>"
  have n1: "1 \<le> n" and d1: "1 \<le> d"
    using X by (auto simp: check_array_def n_def d_def split: if_splits intro: Suc_leI)
  have lam: "lambda_all alpha (\<lambda>P. EVs ! P) n = replicate n 1"
    unfolding lambda_all_def
  proof (rule nth_equalityI)
    show "length (map (\<lambda>P. lambda_P alpha (fst (EVs ! P))) [0..<n]) = length (replicate n (1::nat))"
      by simp
  next
    fix i assume "i < length (map (\<lambda>P. lambda_P alpha (fst (EVs ! P))) [0..<n])"
    then have i: "i < n" by simp
    then have "\<forall>e\<in>set (fst (EVs ! i)). 0 \<le> e" using nonneg by (simp add: n_def)
    then have "lambda_P alpha (fst (EVs ! i)) = 1" using alpha by (rule lambda_P_alpha_nonpos)
    then show "map (\<lambda>P. lambda_P alpha (fst (EVs ! P))) [0..<n] ! i = replicate n 1 ! i"
      using i by simp
  qed
  have permD: "mset D = mset [0..<n]" using perm by (simp add: D_def n_def)
  have Ds: "partitions argsort (replicate n 1) d = D # replicate d []"
    unfolding D_def using perm d1 by (intro partitions_all_ones) (simp_all add: n_def)
  have lD: "length D = n" using permD by (metis mset_eq_length length_upt diff_zero)
  have dD: "distinct D" using permD by (metis distinct_upt mset_eq_imp_distinct_iff)
  have sD: "set D = {0..<n}" using permD by (metis mset_eq_setD set_upt)
  have cd': "partition_dist X M D = Inr cd" using cd by (simp add: M_def D_def n_def d_def)
  have lab': "clust cd = Inr labels" using lab by (simp add: clust_def)
  have ph': "clust [[Fin 0]] = Inr [l0]" using ph by (simp add: clust_def)
  have lcd: "length cd = max 1 (length D)" using partition_dist_total[of X M D] cd' by auto
  have len': "length labels = length cd" using len lcd lD n1 by (simp add: n_def max_def)
  have idx: "\<forall>i\<in>set D. i < length (y_arr st0)" using sD by (simp add: st0_def)
  have lu: "length (used_y st0) = length (y_arr st0)" by (simp add: st0_def)
  obtain st1 where s1: "partition_body X M clust D st0 = Inr st1"
    using partition_body_answer[of X M D cd clust labels st0, OF cd' lab' len' idx lu] by blast
  note u = partition_body_used[OF s1]
  have lu1: "length (used_y st1) = n" and ly1: "length (y_arr st1) = n"
    using u by (simp_all add: st0_def)
  have "\<forall>i<n. used_y st1 ! i = True" using u sD by (simp add: st0_def)
  then have u1: "used_y st1 = replicate n True" using lu1 by (intro nth_equalityI) simp_all
  have y1: "\<forall>t<n. y_arr st1 ! (D ! t) = labels ! t"
  proof (intro allI impI)
    fix t assume "t < n"
    then have t: "t < length D" using lD by simp
    have "length labels = length D" using len lD by (simp add: n_def)
    from partition_body_labels[of X M clust D st0 st1 cd labels t, OF s1 cd' lab' this dD t]
    show "y_arr st1 ! (D ! t) = labels ! t" by (simp add: st0_def)
  qed
  obtain st' where rest: "partition_loop X M clust (replicate d []) st1 = Inr st'"
    and keep: "y_arr st' = y_arr st1" "used_y st' = used_y st1"
    using partition_loop_empties[where clust = clust, OF ph'] by blast
  have loop: "partition_loop X M clust (D # replicate d []) st0 = Inr st'"
    using s1 rest by simp
  have la: "list_all (\<lambda>b. b) (used_y st')" using keep u1 by (simp add: list_all_length)
  have parts: "partitions argsort (lambda_all alpha (\<lambda>P. EVs ! P) n) d = D # replicate d []"
    by (simp only: lam Ds)
  have "copac_call X k mu eps alpha kneighbors eigh argsort dbscan =
     (case partition_loop X M clust (partitions argsort (lambda_all alpha (\<lambda>P. EVs ! P) n) d) st0 of
        Inl e \<Rightarrow> Inl e
      | Inr st \<Rightarrow> if list_all (\<lambda>b. b) (used_y st) then Inr (y_arr st) else Inl AssertionError)"
    unfolding copac_call_unfold[OF X an] M_def clust_def st0_def n_def d_def by (rule refl)
  also have "\<dots> = (if list_all (\<lambda>b. b) (used_y st') then Inr (y_arr st') else Inl AssertionError)"
    by (simp only: parts loop sum.case)
  also have "\<dots> = Inr (y_arr st1)" using la keep by simp
  finally have "copac_call X k mu eps alpha kneighbors eigh argsort dbscan = Inr (y_arr st1)" .
  then have "\<exists>y. copac_call X k mu eps alpha kneighbors eigh argsort dbscan = Inr y
              \<and> length y = length X
              \<and> (\<forall>t<length X. y ! (argsort (replicate (length X) 1) ! t) = labels ! t)"
    using ly1 y1 by (simp add: n_def D_def)
  with lam Ds show ?thesis by (simp add: n_def d_def D_def)
qed

lemma copac_call_error_source:
  assumes X: "check_array X = Inr X"
    and an: "neighbourhood_eighs X k kneighbors eigh = Inr EVs"
    and perm: "mset (argsort (lambda_all alpha (\<lambda>P. EVs ! P) (length X))) = mset [0..<length X]"
    and contract: "\<forall>cd labels. dbscan cd eps mu = Inr labels \<longrightarrow> length labels = length cd"
    and err: "copac_call X k mu eps alpha kneighbors eigh argsort dbscan = Inl err"
  shows "\<exists>D cd. D \<in> set (partitions argsort (lambda_all alpha (\<lambda>P. EVs ! P) (length X)) (ncols X))
           \<and> partition_dist X (M_hat_all alpha (\<lambda>P. EVs ! P) (length X) (ncols X)) D = Inr cd
           \<and> dbscan cd eps mu = Inl err"
proof -
  define n where "n = length X"
  define lam where "lam = lambda_all alpha (\<lambda>P. EVs ! P) n"
  define Ds where "Ds = partitions argsort lam (ncols X)"
  define M where "M = M_hat_all alpha (\<lambda>P. EVs ! P) n (ncols X)"
  define clust where "clust = (\<lambda>cd. dbscan cd eps mu)"
  define st0 where "st0 = \<lparr>max_label = 0, y_arr = replicate n (- 1), used_y = replicate n False\<rparr>"
  have call: "copac_call X k mu eps alpha kneighbors eigh argsort dbscan =
     (case partition_loop X M clust Ds st0 of
        Inl e \<Rightarrow> Inl e
      | Inr st \<Rightarrow> if list_all (\<lambda>b. b) (used_y st) then Inr (y_arr st) else Inl AssertionError)"
    unfolding copac_call_unfold[OF X an] M_def clust_def st0_def Ds_def lam_def n_def by (rule refl)
  have "mset (argsort lam) = mset [0..<n]" using perm by (simp add: lam_def n_def)
  then have cover: "set (concat Ds) = {0..<n}"
    unfolding Ds_def partitions_concat by (metis mset_eq_setD set_upt)
  have idx: "\<forall>D\<in>set Ds. \<forall>i\<in>set D. i < length (y_arr st0)"
  proof (intro ballI)
    fix D i assume "D \<in> set Ds" and "i \<in> set D"
    then have "i \<in> set (concat Ds)" by auto
    then show "i < length (y_arr st0)" using cover by (simp add: st0_def del: set_concat)
  qed
  have lu: "length (used_y st0) = length (y_arr st0)" by (simp add: st0_def)
  have contract': "\<forall>cd labels. clust cd = Inr labels \<longrightarrow> length labels = length cd"
    using contract by (simp add: clust_def)
  show ?thesis
  proof (cases "partition_loop X M clust Ds st0")
    case (Inl e')
    then have "err = e'" using err call by simp
    then have "partition_loop X M clust Ds st0 = Inl err" using Inl by simp
    from partition_loop_error[of X M clust Ds st0 err, OF this idx lu contract']
    show ?thesis by (simp add: Ds_def M_def clust_def lam_def n_def)
  next
    case (Inr st)
    note u = partition_loop_used[OF Inr]
    have len: "length (used_y st) = n" using u by (simp add: st0_def)
    have "\<forall>i<n. used_y st ! i = True" using u cover by (simp add: st0_def del: set_concat)
    then have "list_all (\<lambda>b. b) (used_y st)" using len by (simp add: list_all_length)
    then have "copac_call X k mu eps alpha kneighbors eigh argsort dbscan = Inr (y_arr st)"
      using call Inr by simp
    with err show ?thesis by simp
  qed
qed

lemma partition_body_assertion:
  assumes "partition_body X M_hat clust D st = Inl AssertionError"
  shows "\<exists>cd. clust cd = Inl AssertionError"
proof -
  obtain cd where cd: "partition_dist X M_hat D = Inr cd" using partition_dist_total by blast
  show ?thesis
  proof (cases "clust cd")
    case (Inl e)
    then have "partition_body X M_hat clust D st = Inl e" using cd by (simp add: partition_body_def)
    then show ?thesis using assms Inl by auto
  next
    case (Inr labels)
    have "partition_body X M_hat clust D st \<noteq> Inl AssertionError"
      unfolding partition_body_unfold[of X M_hat D cd clust labels, OF cd Inr]
      by (auto simp: fancy_assign_def split: sum.splits if_splits)
    with assms show ?thesis by simp
  qed
qed

lemma partition_loop_assertion:
  assumes "partition_loop X M_hat clust Ds st = Inl AssertionError"
  shows "\<exists>cd. clust cd = Inl AssertionError"
  using assms
proof (induction Ds arbitrary: st)
  case Nil
  then show ?case by simp
next
  case (Cons D Ds)
  show ?case
  proof (cases "partition_body X M_hat clust D st")
    case (Inl e)
    then have "partition_body X M_hat clust D st = Inl AssertionError" using Cons.prems by simp
    then show ?thesis by (rule partition_body_assertion)
  next
    case (Inr st1)
    then have "partition_loop X M_hat clust Ds st1 = Inl AssertionError" using Cons.prems by simp
    then show ?thesis by (rule Cons.IH)
  qed
qed

text \<open>The assertion of line 178 in the whole call: when \<open>np.argsort\<close> returns a
  permutation, an \<open>AssertionError\<close> of the call is not the one of line 178 but one that a
  collaborator raised.\<close>

lemma copac_call_assertion:
  assumes perm: "\<forall>EVs. neighbourhood_eighs X k kneighbors eigh = Inr EVs \<longrightarrow>
                   mset (argsort (lambda_all alpha (\<lambda>P. EVs ! P) (length X))) = mset [0..<length X]"
    and err: "copac_call X k mu eps alpha kneighbors eigh argsort dbscan = Inl AssertionError"
  shows "neighbourhood_eighs X k kneighbors eigh = Inl AssertionError
       \<or> (\<exists>cd. dbscan cd eps mu = Inl AssertionError)"
proof (cases "check_array X")
  case (Inl e)
  then have "e = ValueError" by (auto simp: check_array_def split: if_splits)
  then show ?thesis using Inl err by (simp add: copac_call_def)
next
  case (Inr X')
  then have X: "check_array X = Inr X" by (auto simp: check_array_def split: if_splits)
  show ?thesis
  proof (cases "neighbourhood_eighs X k kneighbors eigh")
    case (Inl e)
    then show ?thesis using err X by (simp add: copac_call_def)
  next
    case (Inr EVs)
    define n where "n = length X"
    define Ds where "Ds = partitions argsort (lambda_all alpha (\<lambda>P. EVs ! P) n) (ncols X)"
    define M where "M = M_hat_all alpha (\<lambda>P. EVs ! P) n (ncols X)"
    define clust where "clust = (\<lambda>cd. dbscan cd eps mu)"
    define st0 where "st0 = \<lparr>max_label = 0, y_arr = replicate n (- 1), used_y = replicate n False\<rparr>"
    have call: "copac_call X k mu eps alpha kneighbors eigh argsort dbscan =
       (case partition_loop X M clust Ds st0 of
          Inl e \<Rightarrow> Inl e
        | Inr st \<Rightarrow> if list_all (\<lambda>b. b) (used_y st) then Inr (y_arr st) else Inl AssertionError)"
      unfolding copac_call_unfold[OF X Inr] M_def clust_def st0_def Ds_def n_def by (rule refl)
    have "mset (argsort (lambda_all alpha (\<lambda>P. EVs ! P) n)) = mset [0..<n]"
      using perm Inr by (simp add: n_def)
    then have cover: "set (concat Ds) = {0..<n}"
      unfolding Ds_def partitions_concat by (metis mset_eq_setD set_upt)
    show ?thesis
    proof (cases "partition_loop X M clust Ds st0")
      case (Inl e)
      then have "partition_loop X M clust Ds st0 = Inl AssertionError" using err call by simp
      then have "\<exists>cd. clust cd = Inl AssertionError" by (rule partition_loop_assertion)
      then show ?thesis by (simp add: clust_def)
    next
      case st: (Inr st)
      note u = partition_loop_used[OF st]
      have len: "length (used_y st) = n" using u by (simp add: st0_def)
      have "\<forall>i<n. used_y st ! i = True" using u cover by (simp add: st0_def del: set_concat)
      then have "list_all (\<lambda>b. b) (used_y st)" using len by (simp add: list_all_length)
      then have "copac_call X k mu eps alpha kneighbors eigh argsort dbscan = Inr (y_arr st)"
        using call st by simp
      with err show ?thesis by simp
    qed
  qed
qed

lemma copac_cong:
  assumes "\<forall>P<length X. nb P = nb' P"
  shows "copac X alpha nb argsort db = copac X alpha nb' argsort db"
proof -
  have "lambda_all alpha nb (length X) = lambda_all alpha nb' (length X)"
    unfolding lambda_all_def using assms by (intro map_cong refl) simp
  moreover have "M_hat_all alpha nb (length X) (ncols X) = M_hat_all alpha nb' (length X) (ncols X)"
    unfolding M_hat_all_def using assms by (intro map_cong refl) simp
  ultimately have "copac_state X alpha nb argsort db = copac_state X alpha nb' argsort db"
    by (simp add: copac_state_def)
  moreover have "\<And>X'. check_array X = Inr X' \<Longrightarrow> X' = X"
    by (auto simp: check_array_def split: if_splits)
  ultimately show ?thesis by (auto simp: copac_def split: sum.splits)
qed

section \<open>Runs on the example inputs\<close>

lemma ex4_check: "check_array ex4_X = Inr ex4_X"
  by (simp add: check_array_def ncols_def ex4_X_def)

lemma ex4_shape: "length ex4_X = 4" "ncols ex4_X = 2"
  by (simp_all add: ncols_def ex4_X_def)

lemma ex4_lambda_invalid_alpha: "lambda_all 0 ex4_eigh 4 = [1, 1, 1, 1]"
  by code_simp

lemma ex4_lambda: "lambda_all (85/100) ex4_eigh 4 = [1, 1, 1, 1]"
  by code_simp

lemma ex4_M_hat:
  "M_hat_all 0 ex4_eigh 4 2 = [[[1, 0], [0, 0]], [[1, 0], [0, 0]], [[1, 0], [0, 0]], [[1, 0], [0, 0]]]"
  by code_simp

lemma ex4_squared_distances:
  "map (\<lambda>i. map (\<lambda>j. max (cdist_pair ex4_X (M_hat_all 0 ex4_eigh 4 2) [0, 1, 2, 3] i j)
                        (cdist_pair ex4_X (M_hat_all 0 ex4_eigh 4 2) [0, 1, 2, 3] j i))
            [0..<4]) [0..<4]
     = [[0, 1, 4, 9], [1, 0, 1, 4], [4, 1, 0, 1], [9, 4, 1, 0]]"
  by code_simp

lemma ex4_partitions: "partitions stable_argsort [1, 1, 1, 1] 2 = [[0, 1, 2, 3], [], []]"
  by code_simp

lemma ex4_state:
  "copac_state ex4_X (85/100) ex4_eigh stable_argsort one_cluster
   = Inr \<lparr>max_label = 3, y_arr = [0, 0, 0, 0], used_y = [True, True, True, True]\<rparr>"
  unfolding copac_state_def Let_def ex4_shape ex4_lambda ex4_partitions
  by (simp add: partition_step_unfold partition_dist_cases fancy_assign_def Let_def one_cluster_def
      eval_nat_numeral)

lemma ex10_check: "check_array ex10_X = Inr ex10_X"
  by (simp add: check_array_def ncols_def ex10_X_def)

lemma ex10_shape: "length ex10_X = 10" "ncols ex10_X = 2"
  by (simp_all add: ncols_def ex10_X_def)

lemma ex10_lambda: "lambda_all (85/100) ex10_eigh 10 = [1, 1, 1, 1, 1, 1, 1, 1, 1, 2]"
  by code_simp

lemma ex10_M_hat:
  "M_hat_all (85/100) ex10_eigh 10 2
     = [[[1, 0], [0, 0]], [[1, 0], [0, 0]], [[1, 0], [0, 0]],
        [[1, 0], [0, 0]], [[1, 0], [0, 0]], [[1, 0], [0, 0]],
        [[0, 0], [0, 1]], [[0, 0], [0, 1]], [[0, 0], [0, 1]],
        [[0, 0], [0, 0]]]"
  by code_simp

lemma ex10_partitions:
  "partitions stable_argsort [1, 1, 1, 1, 1, 1, 1, 1, 1, 2] 2 = [[0, 1, 2, 3, 4, 5, 6, 7, 8], [9], []]"
  by code_simp

lemma ex10_first_partition:
  "partition_step ex10_X (M_hat_all (85/100) ex10_eigh 10 2) ex10_dbscan [0, 1, 2, 3, 4, 5, 6, 7, 8]
     \<lparr>max_label = 0, y_arr = replicate 10 (- 1), used_y = replicate 10 False\<rparr>
   = Inr \<lparr>max_label = 3, y_arr = [0, 0, 0, 1, 1, 1, 2, 2, 2, - 1],
          used_y = [True, True, True, True, True, True, True, True, True, False]\<rparr>"
  by (simp add: partition_step_unfold partition_dist_cases fancy_assign_def Let_def ex10_dbscan_def
      eval_nat_numeral)

lemma ex10_squared_distances:
  "map (\<lambda>i. map (\<lambda>j. max (cdist_pair ex10_X (M_hat_all (85/100) ex10_eigh 10 2) [0, 1, 2, 3, 4, 5, 6, 7, 8] i j)
                        (cdist_pair ex10_X (M_hat_all (85/100) ex10_eigh 10 2) [0, 1, 2, 3, 4, 5, 6, 7, 8] j i))
            [0..<9]) [0..<9]
     = [[0, 4, 16, 1600, 1764, 1936, 400, 441, 529],
        [4, 0, 4, 1764, 1936, 2116, 484, 484, 529],
        [16, 4, 0, 1936, 2116, 2304, 576, 576, 576],
        [1600, 1764, 1936, 0, 4, 16, 400, 441, 529],
        [1764, 1936, 2116, 4, 0, 4, 484, 484, 529],
        [1936, 2116, 2304, 16, 4, 0, 576, 576, 576],
        [400, 484, 576, 400, 484, 576, 0, 4, 16],
        [441, 484, 576, 441, 484, 576, 4, 0, 4],
        [529, 529, 576, 529, 529, 576, 16, 4, 0]]"
  by code_simp

lemma ex10_state:
  "copac_state ex10_X (85/100) ex10_eigh stable_argsort ex10_dbscan
   = Inr \<lparr>max_label = 3, y_arr = [0, 0, 0, 1, 1, 1, 2, 2, 2, 2],
          used_y = [True, True, True, True, True, True, True, True, True, True]\<rparr>"
  unfolding copac_state_def Let_def ex10_shape ex10_lambda ex10_partitions
  by (simp add: partition_step_unfold partition_dist_cases fancy_assign_def Let_def ex10_dbscan_def
      eval_nat_numeral)

lemma ex4_neighbourhoods:
  "neighbourhood_eighs ex4_X 3 brute_kneighbors axis_eigh = Inr (map ex4_eigh [0..<4])"
  by code_simp

lemma ex4_eigh_nth: "\<forall>P<length ex4_X. map ex4_eigh [0..<4] ! P = ex4_eigh P"
  by (simp add: ex4_shape del: upt_Suc)

lemma ex4_near_state:
  "copac_state ex4_X 0 ex4_eigh stable_argsort (\<lambda>cd. near_labels cd 2)
   = Inr \<lparr>max_label = 1, y_arr = [0, 0, 0, 0], used_y = [True, True, True, True]\<rparr>"
  unfolding copac_state_def Let_def ex4_shape ex4_lambda_invalid_alpha ex4_partitions
  by (simp add: partition_step_unfold partition_dist_cases fancy_assign_def Let_def near_labels_def
      eval_nat_numeral)

lemma ex4_near_state_mu:
  "copac_state ex4_X (85/100) ex4_eigh stable_argsort (\<lambda>cd. near_labels cd 4)
   = Inr \<lparr>max_label = 1, y_arr = [0, 0, 0, 0], used_y = [True, True, True, True]\<rparr>"
  unfolding copac_state_def Let_def ex4_shape ex4_lambda ex4_partitions
  by (simp add: partition_step_unfold partition_dist_cases fancy_assign_def Let_def near_labels_def
      eval_nat_numeral)

lemma partitions_nonempty: "partitions argsort lam d \<noteq> []"
proof
  assume "partitions argsort lam d = []"
  then have "length (partitions argsort lam d) = length ([]::nat list list)" by (rule arg_cong)
  then show False by simp
qed

lemma partition_loop_all_raise:
  assumes "\<forall>cd. clust cd = Inl e" and "Ds \<noteq> []"
  shows "partition_loop X M_hat clust Ds st = Inl e"
  using assms by (cases Ds) (simp_all add: partition_body_def partition_dist_cases)

lemma ex4_call_invalid_eps:
  "copac_call ex4_X 3 2 0 (85/100) brute_kneighbors axis_eigh stable_argsort near_dbscan
     = Inl ValueError"
proof -
  have r: "\<forall>cd. near_dbscan cd 0 2 = Inl ValueError" by (simp add: near_dbscan_def)
  have ne: "partitions stable_argsort
          (lambda_all (85/100) (\<lambda>P. map ex4_eigh [0..<4] ! P) (length ex4_X)) (ncols ex4_X) \<noteq> []"
    by (rule partitions_nonempty)
  have "partition_loop ex4_X
          (M_hat_all (85/100) (\<lambda>P. map ex4_eigh [0..<4] ! P) (length ex4_X) (ncols ex4_X))
          (\<lambda>cd. near_dbscan cd 0 2)
          (partitions stable_argsort
             (lambda_all (85/100) (\<lambda>P. map ex4_eigh [0..<4] ! P) (length ex4_X)) (ncols ex4_X))
          \<lparr>max_label = 0, y_arr = replicate (length ex4_X) (- 1),
            used_y = replicate (length ex4_X) False\<rparr> = Inl ValueError"
    using r ne by (rule partition_loop_all_raise)
  then show ?thesis
    unfolding copac_call_unfold[OF ex4_check ex4_neighbourhoods] by (simp only: sum.case)
qed

lemma ex10_neighbourhoods:
  "neighbourhood_eighs ex10_X 3 brute_kneighbors axis_eigh = Inr (map ex10_eigh [0..<10])"
  by code_simp

lemma ex10_eigh_nth: "\<forall>P<length ex10_X. map ex10_eigh [0..<10] ! P = ex10_eigh P"
  by (simp add: ex10_shape del: upt_Suc)

text \<open>The whole call at the ten points, with \<open>k = 3\<close>, \<open>mu = 3\<close>, \<open>eps = 5\<close> and
  \<open>alpha = 0.85\<close>.\<close>

lemma ex10_call:
  "copac_call ex10_X 3 3 5 (85/100) brute_kneighbors axis_eigh stable_argsort
     (\<lambda>cd eps mu. Inr (ex10_dbscan cd)) = Inr [0, 0, 0, 1, 1, 1, 2, 2, 2, 2]"
proof -
  have db: "\<forall>cd. (\<lambda>cd eps mu. Inr (ex10_dbscan cd)) cd (5::real) (3::int) = Inr (ex10_dbscan cd)"
    by simp
  have "copac_call ex10_X 3 3 5 (85/100) brute_kneighbors axis_eigh stable_argsort
          (\<lambda>cd eps mu. Inr (ex10_dbscan cd))
          = copac ex10_X (85/100) (\<lambda>P. map ex10_eigh [0..<10] ! P) stable_argsort ex10_dbscan"
    using ex10_check ex10_neighbourhoods db by (rule copac_call_eq_copac)
  also have "\<dots> = copac ex10_X (85/100) ex10_eigh stable_argsort ex10_dbscan"
    using ex10_eigh_nth by (rule copac_cong)
  also have "\<dots> = Inr [0, 0, 0, 1, 1, 1, 2, 2, 2, 2]"
    unfolding copac_def ex10_check sum.case ex10_state by simp
  finally show ?thesis .
qed

section \<open>Completeness of the labelling\<close>

text \<open>
  Claim C8.  Whenever \<open>np.argsort\<close> returns a permutation of the indices, the loop over the
  partitions, if it ends, has set \<open>used_y\<close> at every index of \<open>{0..<n}\<close>, so the assertion of
  line 178 never fires; and on a valid feature array, with a density clustering that
  returns one label per row of the matrix it is given, \<open>copac\<close> returns a label vector of
  length \<open>n\<close>.
\<close>

theorem copac_every_index_labelled:
  assumes "mset (argsort (lambda_all alpha nbhd_eigh (length X)))
             = mset [0..<length (lambda_all alpha nbhd_eigh (length X))]"
  shows "copac X alpha nbhd_eigh argsort dbscan \<noteq> Inl AssertionError
       \<and> (\<forall>st. copac_state X alpha nbhd_eigh argsort dbscan = Inr st \<longrightarrow>
              used_y st = replicate (length X) True \<and> length (y_arr st) = length X)
       \<and> (check_array X = Inr X \<and> (\<forall>cd. length (dbscan cd) = length cd) \<longrightarrow>
              (\<exists>y. copac X alpha nbhd_eigh argsort dbscan = Inr y \<and> length y = length X))"
proof -
  have a: "copac X alpha nbhd_eigh argsort dbscan \<noteq> Inl AssertionError"
    using assms by (rule copac_no_assertion)
  have b: "\<forall>st. copac_state X alpha nbhd_eigh argsort dbscan = Inr st \<longrightarrow>
              used_y st = replicate (length X) True \<and> length (y_arr st) = length X"
  proof (intro allI impI)
    fix st assume "copac_state X alpha nbhd_eigh argsort dbscan = Inr st"
    with assms show "used_y st = replicate (length X) True \<and> length (y_arr st) = length X"
      by (rule copac_state_used)
  qed
  have c: "check_array X = Inr X \<and> (\<forall>cd. length (dbscan cd) = length cd) \<longrightarrow>
              (\<exists>y. copac X alpha nbhd_eigh argsort dbscan = Inr y \<and> length y = length X)"
  proof
    assume h: "check_array X = Inr X \<and> (\<forall>cd. length (dbscan cd) = length cd)"
    then have db: "\<forall>cd. length (dbscan cd) = length cd" and X: "check_array X = Inr X"
      by simp_all
    from assms db X
    show "\<exists>y. copac X alpha nbhd_eigh argsort dbscan = Inr y \<and> length y = length X"
      by (rule copac_returns_labels)
  qed
  from a b c show ?thesis by (intro conjI)
qed

theorem copac_every_index_labelled_witness:
  "copac ex4_X (85/100) ex4_eigh stable_argsort one_cluster \<noteq> Inl AssertionError
   \<and> copac_state ex4_X (85/100) ex4_eigh stable_argsort one_cluster
       = Inr \<lparr>max_label = 3, y_arr = [0, 0, 0, 0], used_y = [True, True, True, True]\<rparr>
   \<and> replicate (length ex4_X) True = [True, True, True, True]
   \<and> (\<exists>y. copac ex4_X (85/100) ex4_eigh stable_argsort one_cluster = Inr y
          \<and> length y = length ex4_X)"
proof -
  have perm: "mset (stable_argsort (lambda_all (85/100) ex4_eigh (length ex4_X)))
                = mset [0..<length (lambda_all (85/100) ex4_eigh (length ex4_X))]"
    by (rule stable_argsort_perm)
  have db: "\<forall>cd. length (one_cluster cd) = length cd" by (simp add: one_cluster_def)
  note main = copac_every_index_labelled[where argsort = stable_argsort and alpha = "85/100"
      and nbhd_eigh = ex4_eigh and X = ex4_X and dbscan = one_cluster, OF perm]
  have r: "replicate (length ex4_X) True = [True, True, True, True]"
    by (simp add: ex4_shape eval_nat_numeral)
  show ?thesis using main ex4_check db ex4_state r by blast
qed


section \<open>The checks of the parameters\<close>

text \<open>
  Two calls on the four points of a line with \<open>k = 3\<close> and \<open>eps = 5\<close>: one with
  \<open>alpha = 0\<close>, outside the interval \<open>(0, 1)\<close>, and \<open>mu = 2\<close>, one with \<open>mu = 4 > k\<close> and
  \<open>alpha = 0.85\<close>.  In both every point gets correlation dimension 1, the correlation
  distances of the four points are at most 3 (lemma \<open>ex4_squared_distances\<close>), below
  \<open>eps\<close>, and the density clustering puts them in one cluster.  No error is reported:
  the points are analysed, clustered and labelled.
\<close>

theorem copac_accepts_invalid_alpha_and_mu:
  "copac_call ex4_X 3 2 5 0 brute_kneighbors axis_eigh stable_argsort near_dbscan = Inr [0, 0, 0, 0]
   \<and> copac_call ex4_X 3 4 5 (85/100) brute_kneighbors axis_eigh stable_argsort near_dbscan
       = Inr [0, 0, 0, 0]"
proof -
  have db: "\<forall>cd. near_dbscan cd 5 2 = Inr (near_labels cd 2)" by (simp add: near_dbscan_def)
  have "copac_call ex4_X 3 2 5 0 brute_kneighbors axis_eigh stable_argsort near_dbscan
          = copac ex4_X 0 (\<lambda>P. map ex4_eigh [0..<4] ! P) stable_argsort (\<lambda>cd. near_labels cd 2)"
    using ex4_check ex4_neighbourhoods db by (rule copac_call_eq_copac)
  also have "\<dots> = copac ex4_X 0 ex4_eigh stable_argsort (\<lambda>cd. near_labels cd 2)"
    using ex4_eigh_nth by (rule copac_cong)
  also have "\<dots> = Inr [0, 0, 0, 0]"
    unfolding copac_def ex4_check sum.case ex4_near_state by simp
  finally have a: "copac_call ex4_X 3 2 5 0 brute_kneighbors axis_eigh stable_argsort near_dbscan
                     = Inr [0, 0, 0, 0]" .
  have db4: "\<forall>cd. near_dbscan cd 5 4 = Inr (near_labels cd 4)" by (simp add: near_dbscan_def)
  have "copac_call ex4_X 3 4 5 (85/100) brute_kneighbors axis_eigh stable_argsort near_dbscan
          = copac ex4_X (85/100) (\<lambda>P. map ex4_eigh [0..<4] ! P) stable_argsort
              (\<lambda>cd. near_labels cd 4)"
    using ex4_check ex4_neighbourhoods db4 by (rule copac_call_eq_copac)
  also have "\<dots> = copac ex4_X (85/100) ex4_eigh stable_argsort (\<lambda>cd. near_labels cd 4)"
    using ex4_eigh_nth by (rule copac_cong)
  also have "\<dots> = Inr [0, 0, 0, 0]"
    unfolding copac_def ex4_check sum.case ex4_near_state_mu by simp
  finally have b: "copac_call ex4_X 3 4 5 (85/100) brute_kneighbors axis_eigh stable_argsort
                     near_dbscan = Inr [0, 0, 0, 0]" .
  from a b show ?thesis by (intro conjI)
qed

text \<open>
  Claim C3, as the code has it.  An empty feature array or one without columns (\<open>d < 1\<close>)
  is rejected by \<open>check_array\<close> at line 97, and \<open>k < 1\<close> is rejected when the neighbour
  search is fitted at line 111: in both cases the call reports the error whatever the
  neighbour query, the eigen-decomposition, the sorting and the density clustering would
  answer, so before any of them is used.  \<open>mu\<close>, \<open>eps\<close> and \<open>alpha\<close> are not checked by
  \<open>copac\<close>, whatever their values:
  \<^item> once the neighbour search and the eigen-decompositions have answered (\<open>np.argsort\<close>
    returning a permutation, the density clustering one label per row when it answers),
    the only error the call can still report is one that the density clustering raises
    when it is called, at line 167, with the distance matrix of a partition and with
    \<open>eps\<close> and \<open>mu\<close> as they were given;
  \<^item> \<open>alpha\<close> is used as it was given by the search of line 126: for non-negative
    eigenvalues, \<open>alpha \<le> 0\<close> gives the correlation dimension 1, and \<open>alpha > 1\<close> gives
    \<open>d + 1\<close> when the total variance is positive;
  \<^item> with \<open>alpha \<le> 0\<close> all points form the first partition and the \<open>d\<close> others are
    empty, and when the density clustering answers on the distance matrix of the first
    partition (and on the \<open>1 \<times> 1\<close> matrix of an empty one) the call returns for each
    point the label that the density clustering gave it.
\<close>

theorem copac_call_rejects_bad_array_and_k_only:
  "(X = [] \<or> ncols X = 0 \<longrightarrow>
      copac_call X k mu eps alpha kneighbors eigh argsort dbscan = Inl ValueError)
   \<and> (check_array X = Inr X \<and> k < 1 \<longrightarrow>
        copac_call X k mu eps alpha kneighbors eigh argsort dbscan = Inl ValueError)
   \<and> (check_array X = Inr X
        \<and> neighbourhood_eighs X k kneighbors eigh = Inr EVs
        \<and> mset (argsort (lambda_all alpha (\<lambda>P. EVs ! P) (length X))) = mset [0..<length X]
        \<and> (\<forall>cd labels. dbscan cd eps mu = Inr labels \<longrightarrow> length labels = length cd)
        \<and> copac_call X k mu eps alpha kneighbors eigh argsort dbscan = Inl err \<longrightarrow>
        (\<exists>D cd. D \<in> set (partitions argsort (lambda_all alpha (\<lambda>P. EVs ! P) (length X)) (ncols X))
           \<and> partition_dist X (M_hat_all alpha (\<lambda>P. EVs ! P) (length X) (ncols X)) D = Inr cd
           \<and> dbscan cd eps mu = Inl err))
   \<and> ((\<forall>v\<in>set E. 0 \<le> v) \<and> alpha \<le> 0 \<longrightarrow> lambda_P alpha E = 1)
   \<and> ((\<forall>v\<in>set E. 0 \<le> v) \<and> 0 < sum_list E \<and> 1 < alpha \<longrightarrow> lambda_P alpha E = length E + 1)
   \<and> (check_array X = Inr X
        \<and> neighbourhood_eighs X k kneighbors eigh = Inr EVs
        \<and> alpha \<le> 0
        \<and> (\<forall>P<length X. \<forall>v\<in>set (fst (EVs ! P)). 0 \<le> v)
        \<and> mset (argsort (replicate (length X) 1)) = mset [0..<length X]
        \<and> partition_dist X (M_hat_all alpha (\<lambda>P. EVs ! P) (length X) (ncols X))
             (argsort (replicate (length X) 1)) = Inr cdm
        \<and> dbscan cdm eps mu = Inr labels \<and> length labels = length X
        \<and> dbscan [[Fin 0]] eps mu = Inr [lz] \<longrightarrow>
        lambda_all alpha (\<lambda>P. EVs ! P) (length X) = replicate (length X) 1
        \<and> partitions argsort (lambda_all alpha (\<lambda>P. EVs ! P) (length X)) (ncols X)
             = argsort (replicate (length X) 1) # replicate (ncols X) []
        \<and> (\<exists>y. copac_call X k mu eps alpha kneighbors eigh argsort dbscan = Inr y
               \<and> length y = length X
               \<and> (\<forall>t<length X. y ! (argsort (replicate (length X) 1) ! t) = labels ! t)))"
proof (intro conjI impI)
  assume "X = [] \<or> ncols X = 0"
  then show "copac_call X k mu eps alpha kneighbors eigh argsort dbscan = Inl ValueError"
    by (rule copac_call_bad_array)
next
  assume "check_array X = Inr X \<and> k < 1"
  then have "check_array X = Inr X" and "k < 1" by simp_all
  then show "copac_call X k mu eps alpha kneighbors eigh argsort dbscan = Inl ValueError"
    by (rule copac_call_bad_k)
next
  assume h: "check_array X = Inr X
        \<and> neighbourhood_eighs X k kneighbors eigh = Inr EVs
        \<and> mset (argsort (lambda_all alpha (\<lambda>P. EVs ! P) (length X))) = mset [0..<length X]
        \<and> (\<forall>cd labels. dbscan cd eps mu = Inr labels \<longrightarrow> length labels = length cd)
        \<and> copac_call X k mu eps alpha kneighbors eigh argsort dbscan = Inl err"
  then have a: "check_array X = Inr X" and b: "neighbourhood_eighs X k kneighbors eigh = Inr EVs"
    and c: "mset (argsort (lambda_all alpha (\<lambda>P. EVs ! P) (length X))) = mset [0..<length X]"
    and d: "\<forall>cd labels. dbscan cd eps mu = Inr labels \<longrightarrow> length labels = length cd"
    and e: "copac_call X k mu eps alpha kneighbors eigh argsort dbscan = Inl err"
    by simp_all
  from a b c d e
  show "\<exists>D cd. D \<in> set (partitions argsort (lambda_all alpha (\<lambda>P. EVs ! P) (length X)) (ncols X))
           \<and> partition_dist X (M_hat_all alpha (\<lambda>P. EVs ! P) (length X) (ncols X)) D = Inr cd
           \<and> dbscan cd eps mu = Inl err"
    by (rule copac_call_error_source)
next
  assume "(\<forall>v\<in>set E. 0 \<le> v) \<and> alpha \<le> 0"
  then have "\<forall>v\<in>set E. 0 \<le> v" and "alpha \<le> 0" by simp_all
  then show "lambda_P alpha E = 1" by (rule lambda_P_alpha_nonpos)
next
  assume "(\<forall>v\<in>set E. 0 \<le> v) \<and> 0 < sum_list E \<and> 1 < alpha"
  then have "\<forall>v\<in>set E. 0 \<le> v" and "0 < sum_list E" and "1 < alpha" by simp_all
  then show "lambda_P alpha E = length E + 1" by (rule lambda_P_alpha_above_one)
next
  assume h: "check_array X = Inr X
        \<and> neighbourhood_eighs X k kneighbors eigh = Inr EVs
        \<and> alpha \<le> 0
        \<and> (\<forall>P<length X. \<forall>v\<in>set (fst (EVs ! P)). 0 \<le> v)
        \<and> mset (argsort (replicate (length X) 1)) = mset [0..<length X]
        \<and> partition_dist X (M_hat_all alpha (\<lambda>P. EVs ! P) (length X) (ncols X))
             (argsort (replicate (length X) 1)) = Inr cdm
        \<and> dbscan cdm eps mu = Inr labels \<and> length labels = length X
        \<and> dbscan [[Fin 0]] eps mu = Inr [lz]"
  then have a: "check_array X = Inr X" and b: "neighbourhood_eighs X k kneighbors eigh = Inr EVs"
    and c: "alpha \<le> 0" and d: "\<forall>P<length X. \<forall>v\<in>set (fst (EVs ! P)). 0 \<le> v"
    and e: "mset (argsort (replicate (length X) 1)) = mset [0..<length X]"
    and f: "partition_dist X (M_hat_all alpha (\<lambda>P. EVs ! P) (length X) (ncols X))
             (argsort (replicate (length X) 1)) = Inr cdm"
    and g: "dbscan cdm eps mu = Inr labels" and i: "length labels = length X"
    and j: "dbscan [[Fin 0]] eps mu = Inr [lz]"
    by simp_all
  note main = copac_call_nonpos_alpha[of X k kneighbors eigh EVs alpha argsort cdm dbscan eps mu labels lz,
      OF a b c d e f g i j]
  from main show "lambda_all alpha (\<lambda>P. EVs ! P) (length X) = replicate (length X) 1" by blast
  from main show "partitions argsort (lambda_all alpha (\<lambda>P. EVs ! P) (length X)) (ncols X)
             = argsort (replicate (length X) 1) # replicate (ncols X) []" by blast
  from main show "\<exists>y. copac_call X k mu eps alpha kneighbors eigh argsort dbscan = Inr y
               \<and> length y = length X
               \<and> (\<forall>t<length X. y ! (argsort (replicate (length X) 1) ! t) = labels ! t)" by blast
qed


theorem copac_call_rejects_bad_array_and_k_only_witness:
  "copac_call [] 3 2 5 (85/100) brute_kneighbors axis_eigh stable_argsort near_dbscan = Inl ValueError
   \<and> copac_call ex4_X 0 2 5 (85/100) brute_kneighbors axis_eigh stable_argsort near_dbscan
       = Inl ValueError
   \<and> copac_call ex4_X 3 2 0 (85/100) brute_kneighbors axis_eigh stable_argsort near_dbscan
       = Inl ValueError
   \<and> (\<exists>D cd. D \<in> set (partitions stable_argsort
                        (lambda_all (85/100) (\<lambda>P. map ex4_eigh [0..<4] ! P) (length ex4_X))
                        (ncols ex4_X))
          \<and> partition_dist ex4_X
               (M_hat_all (85/100) (\<lambda>P. map ex4_eigh [0..<4] ! P) (length ex4_X) (ncols ex4_X)) D
               = Inr cd
          \<and> near_dbscan cd 0 2 = Inl ValueError)
   \<and> lambda_P 0 [1, 3] = 1
   \<and> lambda_P 2 [1, 3] = 3
   \<and> lambda_all (- 1) (\<lambda>P. map ex4_eigh [0..<4] ! P) (length ex4_X) = [1, 1, 1, 1]
   \<and> partitions stable_argsort (lambda_all (- 1) (\<lambda>P. map ex4_eigh [0..<4] ! P) (length ex4_X))
        (ncols ex4_X) = [[0, 1, 2, 3], [], []]
   \<and> (\<exists>y. copac_call ex4_X 3 2 5 (- 1) brute_kneighbors axis_eigh stable_argsort near_dbscan = Inr y
          \<and> length y = 4 \<and> y ! 0 = 0 \<and> y ! 1 = 0 \<and> y ! 2 = 0 \<and> y ! 3 = 0)"
proof -
  define EVs where "EVs = map ex4_eigh [0..<4]"
  note an = ex4_neighbourhoods[folded EVs_def]
  have c1: "copac_call [] 3 2 5 (85/100) brute_kneighbors axis_eigh stable_argsort near_dbscan
              = Inl ValueError"
    using copac_call_rejects_bad_array_and_k_only[where X = "[]" and k = 3 and mu = 2 and eps = 5
        and alpha = "85/100" and kneighbors = brute_kneighbors and eigh = axis_eigh
        and argsort = stable_argsort and dbscan = near_dbscan]
    by simp
  have c2: "copac_call ex4_X 0 2 5 (85/100) brute_kneighbors axis_eigh stable_argsort near_dbscan
              = Inl ValueError"
    using copac_call_rejects_bad_array_and_k_only[where X = ex4_X and k = 0 and mu = 2 and eps = 5
        and alpha = "85/100" and kneighbors = brute_kneighbors and eigh = axis_eigh
        and argsort = stable_argsort and dbscan = near_dbscan] ex4_check
    by simp
  have c3: "copac_call ex4_X 3 2 0 (85/100) brute_kneighbors axis_eigh stable_argsort near_dbscan
              = Inl ValueError"
    by (rule ex4_call_invalid_eps)
  have perm: "mset (stable_argsort (lambda_all (85/100) (\<lambda>P. EVs ! P) (length ex4_X)))
                = mset [0..<length ex4_X]"
    using stable_argsort_perm[of "lambda_all (85/100) (\<lambda>P. EVs ! P) (length ex4_X)"] by simp
  have contract: "\<forall>cd labels. near_dbscan cd 0 2 = Inr labels \<longrightarrow> length labels = length cd"
    by (simp add: near_dbscan_def)
  have c4: "\<exists>D cd. D \<in> set (partitions stable_argsort
                        (lambda_all (85/100) (\<lambda>P. EVs ! P) (length ex4_X)) (ncols ex4_X))
          \<and> partition_dist ex4_X
               (M_hat_all (85/100) (\<lambda>P. EVs ! P) (length ex4_X) (ncols ex4_X)) D = Inr cd
          \<and> near_dbscan cd 0 2 = Inl ValueError"
    using copac_call_rejects_bad_array_and_k_only[where X = ex4_X and k = 3 and mu = 2 and eps = 0
        and alpha = "85/100" and kneighbors = brute_kneighbors and eigh = axis_eigh
        and argsort = stable_argsort and dbscan = near_dbscan and EVs = EVs
        and err = ValueError] ex4_check an perm contract c3
    by blast
  have nn: "\<forall>v\<in>set [1, 3::real]. 0 \<le> v" by simp
  have c5: "lambda_P 0 [1, 3] = 1"
    using copac_call_rejects_bad_array_and_k_only[where alpha = 0 and E = "[1, 3]"] nn by simp
  have "lambda_P 2 [1, 3] = length [1, 3::real] + 1"
    using copac_call_rejects_bad_array_and_k_only[where alpha = 2 and E = "[1, 3]"] nn by simp
  then have c6: "lambda_P 2 [1, 3] = 3" by simp
  define D where "D = stable_argsort (replicate (length ex4_X) 1)"
  have Dv: "D = [0, 1, 2, 3]" unfolding D_def ex4_shape by code_simp
  have perm1: "mset (stable_argsort (replicate (length ex4_X) 1)) = mset [0..<length ex4_X]"
    using stable_argsort_perm[of "replicate (length ex4_X) 1"] by simp
  have nonneg: "\<forall>P<length ex4_X. \<forall>v\<in>set (fst (EVs ! P)). 0 \<le> v"
  proof (intro allI impI)
    fix P assume P: "P < length ex4_X"
    then have "EVs ! P = ex4_eigh P" using ex4_eigh_nth by (simp add: EVs_def)
    moreover have "P = 0 \<or> P = 1 \<or> P = 2 \<or> P = 3" using P unfolding ex4_shape by linarith
    ultimately show "\<forall>v\<in>set (fst (EVs ! P)). 0 \<le> v" by (auto simp: ex4_eigh_def)
  qed
  obtain cd where cd: "partition_dist ex4_X
        (M_hat_all (- 1) (\<lambda>P. EVs ! P) (length ex4_X) (ncols ex4_X)) D = Inr cd"
    and lcd: "length cd = max 1 (length D)"
    using partition_dist_total by blast
  have l4: "length cd = 4" using lcd by (simp add: Dv)
  have lab: "near_dbscan cd 5 2 = Inr [0, 0, 0, 0]"
    by (simp add: near_dbscan_def near_labels_def l4 eval_nat_numeral)
  have len: "length [0, 0, 0, 0::int] = length ex4_X" by (simp add: ex4_shape)
  have ph: "near_dbscan [[Fin 0]] 5 2 = Inr [- 1]" by (simp add: near_dbscan_def near_labels_def)
  have al: "(- 1::real) \<le> 0" by simp
  note main = copac_call_rejects_bad_array_and_k_only[where X = ex4_X and k = 3 and mu = 2
      and eps = 5 and alpha = "- 1" and kneighbors = brute_kneighbors and eigh = axis_eigh
      and argsort = stable_argsort and dbscan = near_dbscan and EVs = EVs and cdm = cd
      and labels = "[0, 0, 0, 0]" and lz = "- 1"]
  have concl: "lambda_all (- 1) (\<lambda>P. EVs ! P) (length ex4_X) = replicate (length ex4_X) 1
        \<and> partitions stable_argsort (lambda_all (- 1) (\<lambda>P. EVs ! P) (length ex4_X)) (ncols ex4_X)
             = stable_argsort (replicate (length ex4_X) 1) # replicate (ncols ex4_X) []
        \<and> (\<exists>y. copac_call ex4_X 3 2 5 (- 1) brute_kneighbors axis_eigh stable_argsort near_dbscan = Inr y
               \<and> length y = length ex4_X
               \<and> (\<forall>t<length ex4_X. y ! (stable_argsort (replicate (length ex4_X) 1) ! t)
                                    = [0, 0, 0, 0] ! t))"
    using main ex4_check an al nonneg perm1 cd[unfolded D_def] lab len ph by blast
  have c7: "lambda_all (- 1) (\<lambda>P. EVs ! P) (length ex4_X) = [1, 1, 1, 1]"
    using concl by (simp add: ex4_shape eval_nat_numeral)
  have p: "partitions stable_argsort (lambda_all (- 1) (\<lambda>P. EVs ! P) (length ex4_X)) (ncols ex4_X)
              = stable_argsort (replicate (length ex4_X) 1) # replicate (ncols ex4_X) []"
    using concl by blast
  have r: "replicate (ncols ex4_X) ([]::nat list) = [[], []]"
    by (simp add: ex4_shape eval_nat_numeral)
  have c8: "partitions stable_argsort (lambda_all (- 1) (\<lambda>P. EVs ! P) (length ex4_X)) (ncols ex4_X)
              = [[0, 1, 2, 3], [], []]"
    unfolding p D_def[symmetric] Dv r by (rule refl)
  obtain y where y: "copac_call ex4_X 3 2 5 (- 1) brute_kneighbors axis_eigh stable_argsort near_dbscan
                       = Inr y"
    and ly: "length y = length ex4_X"
    and ent: "\<forall>t<length ex4_X. y ! (D ! t) = [0, 0, 0, 0] ! t"
    using concl unfolding D_def by blast
  have "y ! 0 = 0" using ent[rule_format, of 0] by (simp add: Dv ex4_shape)
  moreover have "y ! 1 = 0" using ent[rule_format, of 1] by (simp add: Dv ex4_shape)
  moreover have "y ! 2 = 0" using ent[rule_format, of 2] by (simp add: Dv ex4_shape)
  moreover have "y ! 3 = 0" using ent[rule_format, of 3] by (simp add: Dv ex4_shape)
  moreover have "length y = 4" using ly by (simp add: ex4_shape)
  ultimately have c9: "\<exists>y. copac_call ex4_X 3 2 5 (- 1) brute_kneighbors axis_eigh stable_argsort
                             near_dbscan = Inr y
          \<and> length y = 4 \<and> y ! 0 = 0 \<and> y ! 1 = 0 \<and> y ! 2 = 0 \<and> y ! 3 = 0"
    using y by blast
  show ?thesis
    using c1 c2 c3 c4 c5 c6 c7 c8 c9 unfolding EVs_def by (intro conjI)
qed

section \<open>The global label ids\<close>

text \<open>
  What lines 172-176 write, in general: when the density clustering returns one label per
  point of the partition, the entry of every point of the partition is its local label
  plus the offset, whatever the sign of the label, and the offset grows by the number of
  distinct non-negative local labels.
\<close>

lemma partition_step_adds_offset_to_every_label:
  assumes step: "partition_step X M_hat dbscan D st = Inr st'"
    and cd: "partition_dist X M_hat D = Inr cd"
    and len: "length (dbscan cd) = length D"
    and dist: "distinct D" and t: "t < length D"
  shows "y_arr st' ! (D ! t) = dbscan cd ! t + max_label st"
    and "max_label st' = max_label st + int (card {l \<in> set (dbscan cd). 0 \<le> l})"
proof -
  define y_D where "y_D = map (\<lambda>l. l + max_label st) (dbscan cd)"
  obtain y' u' where y': "fancy_assign (y_arr st) D y_D = Inr y'"
    and st': "st' = \<lparr>max_label = max_label st + int (length (remdups (filter (\<lambda>l. 0 \<le> l) (dbscan cd)))),
                     y_arr = y', used_y = u'\<rparr>"
    using step cd by (auto simp: partition_step_unfold Let_def y_D_def split: sum.splits)
  have ly: "length y_D = length D" using len by (simp add: y_D_def)
  have ok: "\<forall>i\<in>set D. i < length (y_arr st)"
    using y' by (auto simp: fancy_assign_def split: if_splits)
  have "y' = fold (\<lambda>(i, x) acc. acc[i := x]) (zip D y_D) (y_arr st)"
    using y' ly by (auto simp: fancy_assign_def split: if_splits)
  then have "y' ! (D ! t) = y_D ! t"
    using fold_zip_update_nth[OF dist ly ok t] by simp
  then show "y_arr st' ! (D ! t) = dbscan cd ! t + max_label st"
    using st' t len by (simp add: y_D_def)
  have "length (remdups (filter (\<lambda>l. 0 \<le> l) (dbscan cd))) = card {l \<in> set (dbscan cd). 0 \<le> l}"
    by (simp add: length_remdups_card_conv)
  then show "max_label st' = max_label st + int (card {l \<in> set (dbscan cd). 0 \<le> l})"
    using st' by simp
qed

text \<open>
  Claim C1 at the ten-point example: the second partition holds the origin alone, the
  density clustering calls it noise (local label \<open>-1\<close>), and line 172 adds the offset 3 to
  it as to every label, so that line 176 writes 2, not \<open>-1\<close>.
\<close>

theorem noise_label_shifted_by_offset:
  "partition_step ex10_X (M_hat_all (85/100) ex10_eigh 10 2) ex10_dbscan [9]
     \<lparr>max_label = 3, y_arr = [0, 0, 0, 1, 1, 1, 2, 2, 2, - 1],
       used_y = [True, True, True, True, True, True, True, True, True, False]\<rparr>
   = Inr \<lparr>max_label = 3, y_arr = [0, 0, 0, 1, 1, 1, 2, 2, 2, 2],
          used_y = [True, True, True, True, True, True, True, True, True, True]\<rparr>"
  by (simp add: partition_step_unfold partition_dist_cases fancy_assign_def Let_def ex10_dbscan_def
      eval_nat_numeral)

text \<open>
  Claim C2 at the ten-point example: the third triple, clustered in the first partition,
  and the noise point of the second partition both receive the global id 2.
\<close>

theorem global_ids_of_partitions_collide:
  "copac ex10_X (85/100) ex10_eigh stable_argsort ex10_dbscan = Inr [0, 0, 0, 1, 1, 1, 2, 2, 2, 2]"
  unfolding copac_def ex10_check sum.case ex10_state by simp

section \<open>Neighbourhoods of zero variance\<close>

lemma sum_list_zeros: "\<forall>e\<in>set xs. e = (0::real) \<Longrightarrow> sum_list xs = 0"
  by (induction xs) simp_all

lemma cumsum_zeros:
  assumes "\<forall>e\<in>set xs. e = (0::real)" and "c \<in> set (cumsum xs)"
  shows "c = 0"
proof -
  obtain i where i: "i < length xs" and c: "c = cumsum xs ! i"
    using assms(2) by (auto simp: in_set_conv_nth)
  have "\<forall>e\<in>set (take (Suc i) xs). e = 0" using assms(1) by (meson in_set_takeD)
  then have "sum_list (take (Suc i) xs) = 0" by (rule sum_list_zeros)
  then show ?thesis using c i by (simp add: cumsum_nth)
qed

lemma explanation_portion_zero_variance:
  assumes "\<forall>e\<in>set E. e = 0" and "x \<in> set (explanation_portion E)"
  shows "x = NaN"
proof -
  have z: "\<forall>e\<in>set (rev (sort E)). e = 0" using assms(1) by simp
  then have s: "sum_list (rev (sort E)) = 0" by (rule sum_list_zeros)
  obtain c where c: "c \<in> set (cumsum (rev (sort E)))" and x: "x = np_divide c (sum_list (rev (sort E)))"
    using assms(2) by (auto simp: explanation_portion_def Let_def)
  have "c = 0" using z c by (rule cumsum_zeros)
  then show ?thesis using x s by (simp add: np_divide_def)
qed

lemma lambda_P_zero_variance:
  assumes "\<forall>e\<in>set E. e = 0"
  shows "lambda_P alpha E = 1"
proof -
  define a where "a = explanation_portion E"
  have nan: "\<forall>i<length a. \<not> np_less (a ! i) alpha"
  proof (intro allI impI)
    fix i assume "i < length a"
    then have "a ! i \<in> set (explanation_portion E)" by (simp add: a_def)
    then have "a ! i = NaN" using assms explanation_portion_zero_variance by blast
    then show "\<not> np_less (a ! i) alpha" by (simp add: np_less_def)
  qed
  have "\<forall>i j. i \<le> j \<and> j < length a \<and> np_less (a ! j) alpha \<longrightarrow> np_less (a ! i) alpha"
    using nan by blast
  then have spec: "searchsorted_left a alpha \<le> length a
       \<and> (\<forall>i<searchsorted_left a alpha. np_less (a ! i) alpha)"
    using searchsorted_left_spec[of a alpha] by blast
  have "searchsorted_left a alpha = 0"
  proof (rule ccontr)
    assume "searchsorted_left a alpha \<noteq> 0"
    then have p: "0 < searchsorted_left a alpha" by simp
    then have "np_less (a ! 0) alpha" using spec by blast
    moreover have "0 < length a" using p spec by auto
    ultimately show False using nan by blast
  qed
  then show ?thesis by (simp add: lambda_P_def a_def)
qed

lemma M_hat_P_dim_one:
  assumes V: "square_mat d V" and a: "a < d" and b: "b < d"
  shows "M_hat_P d 1 V ! a ! b = (\<Sum>k\<in>{1..<d}. V ! a ! k * V ! b ! k)"
proof -
  have "M_hat_P d 1 V ! a ! b = (\<Sum>k\<in>{0..<d}. V ! a ! k * E_hat d 1 ! k * V ! b ! k)"
    using V a b by (rule M_hat_P_nth)
  also have "\<dots> = (\<Sum>k\<in>{0..<d}. if k \<in> {1..<d} then V ! a ! k * V ! b ! k else 0)"
    by (intro sum.cong refl) (auto simp: E_hat_nth)
  also have "\<dots> = (\<Sum>k\<in>{0..<d} \<inter> {1..<d}. V ! a ! k * V ! b ! k)"
    by (rule sum.inter_restrict[symmetric]) simp
  also have "{0..<d} \<inter> {1..<d} = {1..<d}" by auto
  finally show ?thesis .
qed

text \<open>
  Claim C10.  When every eigenvalue of the neighbourhood's covariance is zero, every entry
  of the explained-variance curve of line 125 is the not-a-number of \<open>0/0\<close>; the search
  of line 126 orders not-a-number above \<open>alpha\<close> and returns position 0, so the correlation
  dimension is the number 1 for every \<open>alpha\<close>, and the matrix of line 131 is the finite
  array \<open>V diag (0, 1, ..., 1) V\<^sup>t\<close>: the not-a-number goes no further than the search.
\<close>

theorem zero_variance_neighbourhood_defined:
  assumes "\<forall>e\<in>set E. e = 0"
  shows "(\<forall>x\<in>set (explanation_portion E). x = NaN)
       \<and> lambda_P alpha E = 1
       \<and> (square_mat d V \<longrightarrow>
            square_mat d (M_hat_P d (lambda_P alpha E) V)
            \<and> (\<forall>a<d. \<forall>b<d. M_hat_P d (lambda_P alpha E) V ! a ! b
                                = (\<Sum>k\<in>{1..<d}. V ! a ! k * V ! b ! k)))"
proof -
  have l: "lambda_P alpha E = 1" using assms by (rule lambda_P_zero_variance)
  have n: "\<forall>x\<in>set (explanation_portion E). x = NaN"
    using assms explanation_portion_zero_variance by blast
  have m: "square_mat d V \<longrightarrow>
            square_mat d (M_hat_P d 1 V)
            \<and> (\<forall>a<d. \<forall>b<d. M_hat_P d 1 V ! a ! b = (\<Sum>k\<in>{1..<d}. V ! a ! k * V ! b ! k))"
    using square_mat_M_hat_P M_hat_P_dim_one by blast
  show ?thesis unfolding l using n m by (intro conjI) simp_all
qed

theorem zero_variance_neighbourhood_defined_witness:
  "explanation_portion [0, 0] = [NaN, NaN]
   \<and> lambda_P (85/100) [0, 0] = 1
   \<and> square_mat 2 [[1, 0], [0, 1]]
   \<and> M_hat_P 2 (lambda_P (85/100) [0, 0]) [[1, 0], [0, 1]] = [[0, 0], [0, 1]]"
proof -
  have h: "\<forall>e\<in>set [0, 0::real]. e = 0" by simp
  have e: "explanation_portion [0, 0] = [NaN, NaN]" by code_simp
  have s: "square_mat 2 [[1, 0], [0, 1]]" by (simp add: square_mat_def)
  have l: "lambda_P (85/100) [0, 0] = 1"
    using zero_variance_neighbourhood_defined[OF h, of "85/100" 2 "[[1, 0], [0, 1]]"] by blast
  have m: "M_hat_P 2 1 [[1, 0], [0, 1]] = [[0, 0], [0, 1]]" by code_simp
  show ?thesis unfolding l using e s m by simp
qed

end
